theory Spec2Isabelle
  imports Main "HOL-Library.Word"
begin

section \<open>Strings and the token estimate\<close>

text \<open>
  A JavaScript string is a sequence of UTF-16 code units. Whitespace is what both
  \<^verbatim>\<open>String.prototype.trim\<close> and the regular expression class \<^verbatim>\<open>\s\<close> recognise: the
  ECMAScript WhiteSpace and LineTerminator code points.
\<close>

type_synonym jsstring = "16 word list"

definition isSpace :: "16 word \<Rightarrow> bool" where
  "isSpace c \<longleftrightarrow>
     c \<in> set [0x09, 0x0A, 0x0B, 0x0C, 0x0D, 0x20, 0xA0, 0x1680, 0x2028, 0x2029,
               0x202F, 0x205F, 0x3000, 0xFEFF]
     \<or> (0x2000 \<le> c \<and> c \<le> 0x200A)"

definition LF :: "16 word" where
  "LF = 0x0A"

definition CR :: "16 word" where
  "CR = 0x0D"

text \<open>ASCII literals of the source, as code units.\<close>

definition u16 :: "string \<Rightarrow> jsstring" where
  "u16 s = map (\<lambda>c. of_nat (of_char c)) s"

text \<open>\<^verbatim>\<open>text.trim()\<close>\<close>

definition trim :: "jsstring \<Rightarrow> jsstring" where
  "trim s = rev (dropWhile isSpace (rev (dropWhile isSpace s)))"

text \<open>
  \<^verbatim>\<open>s.split(/\s+/)\<close>: the separators are the maximal runs of whitespace; a string
  without whitespace (the empty one too) comes back as its only piece.
\<close>

function splitWs :: "jsstring \<Rightarrow> jsstring \<Rightarrow> jsstring list" where
  "splitWs cur [] = [cur]"
| "splitWs cur (c # cs) =
     (if isSpace c then cur # splitWs [] (dropWhile isSpace cs)
      else splitWs (cur @ [c]) cs)"
  by pat_completeness auto
termination
  by (relation "measure (\<lambda>(cur, s). length s)")
     (auto simp: length_dropWhile_le less_Suc_eq_le)

text \<open>
  \<^verbatim>\<open>
  function approxTokenCount(text: string): number {
    const trimmed = text.trim();
    if (!trimmed) return 0;
    return trimmed.split(/\s+/).length;
  }
  \<close>
\<close>

definition approxTokenCount :: "jsstring \<Rightarrow> nat" where
  "approxTokenCount t =
     (let trimmed = trim t in
      if trimmed = [] then 0 else length (splitWs [] trimmed))"

section \<open>The window builder\<close>

text \<open>
  A window, \<^verbatim>\<open>{ start, endExclusive, text, approxTokens }\<close>; its \<^verbatim>\<open>text\<close> is the field
  \<open>wtext\<close>.
\<close>

record window =
  start :: nat
  endExclusive :: nat
  wtext :: jsstring
  approxTokens :: nat

datatype config_error =
    MaxTokensNotPositive
  | OverlapTokensNegative
  | OverlapTokensNotBelowMax

text \<open>
  The inner accumulation loop of \<^verbatim>\<open>buildOverlappedWindows\<close>, from the state
  \<open>(endExclusive, combined)\<close>:
  \<^verbatim>\<open>
    while (endExclusive < paragraphs.length) {
      const next = combined ? `${combined}\n\n${paragraphs[endExclusive]}` : paragraphs[endExclusive];
      const t = approxTokenCount(next);
      if (t > maxTokens && endExclusive > start) break;
      combined = next;
      endExclusive += 1;
      if (t >= maxTokens) break;
    }
  \<close>
  The test \<^verbatim>\<open>combined ? ... : ...\<close> is on the truthiness of the string: the empty string
  takes the second branch.
\<close>

function accumulate ::
  "jsstring list \<Rightarrow> int \<Rightarrow> nat \<Rightarrow> nat \<Rightarrow> jsstring \<Rightarrow> nat \<times> jsstring" where
  "accumulate paragraphs maxTokens st e combined =
     (if e < length paragraphs then
        let next = (if combined \<noteq> [] then combined @ [LF, LF] @ paragraphs ! e
                    else paragraphs ! e);
            t = approxTokenCount next
        in if int t > maxTokens \<and> e > st then (e, combined)
           else if int t \<ge> maxTokens then (e + 1, next)
           else accumulate paragraphs maxTokens st (e + 1) next
      else (e, combined))"
  by pat_completeness auto
termination
  by (relation "measure (\<lambda>(ps, m, st, e, c). length ps - e)") auto

declare accumulate.simps [simp del]

text \<open>
  The backward walk, from the state \<open>(overlapStart, overlapAccum)\<close>:
  \<^verbatim>\<open>
    while (overlapStart > start) {
      overlapStart -= 1;
      overlapAccum += approxTokenCount(paragraphs[overlapStart]);
      if (overlapAccum >= overlapTokens) break;
    }
  \<close>
\<close>

function overlapWalk :: "jsstring list \<Rightarrow> int \<Rightarrow> nat \<Rightarrow> nat \<Rightarrow> nat \<Rightarrow> nat" where
  "overlapWalk paragraphs overlapTokens st overlapStart overlapAccum =
     (if overlapStart > st then
        let overlapStart' = overlapStart - 1;
            overlapAccum' = overlapAccum + approxTokenCount (paragraphs ! overlapStart')
        in if int overlapAccum' \<ge> overlapTokens then overlapStart'
           else overlapWalk paragraphs overlapTokens st overlapStart' overlapAccum'
      else overlapStart)"
  by pat_completeness auto
termination
  by (relation "measure (\<lambda>(ps, ov, st, os, acc). os)") auto

declare overlapWalk.simps [simp del]

lemma accumulate_bounds:
  "e \<le> length paragraphs \<Longrightarrow> st \<le> e \<Longrightarrow>
   accumulate paragraphs maxTokens st e combined = (e', c') \<Longrightarrow>
   e \<le> e' \<and> e' \<le> length paragraphs"
proof (induction paragraphs maxTokens st e combined rule: accumulate.induct)
  case (1 paragraphs maxTokens st e combined)
  show ?case
  proof (cases "e < length paragraphs")
    case False
    with "1.prems" show ?thesis
      by (subst (asm) accumulate.simps) simp
  next
    case True
    define nxt where "nxt = (if combined \<noteq> [] then combined @ [LF, LF] @ paragraphs ! e
                             else paragraphs ! e)"
    define t where "t = approxTokenCount nxt"
    consider (stop) "int t > maxTokens \<and> e > st"
      | (full) "\<not> (int t > maxTokens \<and> e > st)" "int t \<ge> maxTokens"
      | (more) "\<not> (int t > maxTokens \<and> e > st)" "\<not> int t \<ge> maxTokens"
      by blast
    then show ?thesis
    proof cases
      case stop
      with True "1.prems" show ?thesis
        by (subst (asm) accumulate.simps) (simp add: nxt_def t_def Let_def)
    next
      case full
      with True "1.prems" show ?thesis
        by (subst (asm) accumulate.simps) (auto simp: nxt_def t_def Let_def)
    next
      case more
      have step: "accumulate paragraphs maxTokens st (e + 1) nxt = (e', c')"
        using "1.prems"(3) True more
        by (subst (asm) accumulate.simps) (simp add: nxt_def t_def Let_def)
      have "e + 1 \<le> e' \<and> e' \<le> length paragraphs"
        using "1.IH"[OF True nxt_def t_def more(1) more(2) _ _ step] True "1.prems"(2)
        by simp
      then show ?thesis by simp
    qed
  qed
qed

lemma accumulate_progress:
  assumes "st < length paragraphs"
    and "accumulate paragraphs maxTokens st st combined = (e', c')"
  shows "st < e' \<and> e' \<le> length paragraphs"
proof -
  define nxt where "nxt = (if combined \<noteq> [] then combined @ [LF, LF] @ paragraphs ! st
                           else paragraphs ! st)"
  show ?thesis
  proof (cases "int (approxTokenCount nxt) \<ge> maxTokens")
    case True
    with assms show ?thesis
      by (subst (asm) accumulate.simps) (simp add: nxt_def Let_def)
  next
    case False
    with assms have "accumulate paragraphs maxTokens st (st + 1) nxt = (e', c')"
      by (subst (asm) accumulate.simps) (simp add: nxt_def Let_def)
    with accumulate_bounds[of "st + 1" paragraphs st maxTokens nxt e' c'] assms(1)
    show ?thesis by simp
  qed
qed

lemma overlapWalk_bounds:
  "st \<le> overlapStart \<Longrightarrow>
   st \<le> overlapWalk paragraphs overlapTokens st overlapStart overlapAccum \<and>
   overlapWalk paragraphs overlapTokens st overlapStart overlapAccum \<le> overlapStart"
proof (induction paragraphs overlapTokens st overlapStart overlapAccum
       rule: overlapWalk.induct)
  case (1 paragraphs overlapTokens st overlapStart overlapAccum)
  show ?case
  proof (cases "overlapStart > st")
    case False
    with "1.prems" show ?thesis
      by (subst overlapWalk.simps, subst overlapWalk.simps) simp
  next
    case True
    define acc' where
      "acc' = overlapAccum + approxTokenCount (paragraphs ! (overlapStart - 1))"
    show ?thesis
    proof (cases "int acc' \<ge> overlapTokens")
      case True
      have "overlapWalk paragraphs overlapTokens st overlapStart overlapAccum
            = overlapStart - 1"
        using True \<open>overlapStart > st\<close>
        by (subst overlapWalk.simps) (simp add: acc'_def Let_def)
      with \<open>overlapStart > st\<close> show ?thesis by simp
    next
      case False
      have eq: "overlapWalk paragraphs overlapTokens st overlapStart overlapAccum
                = overlapWalk paragraphs overlapTokens st (overlapStart - 1) acc'"
        using True False by (subst overlapWalk.simps) (simp add: acc'_def Let_def)
      have "st \<le> overlapWalk paragraphs overlapTokens st (overlapStart - 1) acc' \<and>
            overlapWalk paragraphs overlapTokens st (overlapStart - 1) acc' \<le> overlapStart - 1"
        using "1.IH"[OF True refl acc'_def False] True by simp
      with eq show ?thesis by auto
    qed
  qed
qed

text \<open>
  One pass through the body of the outer loop, entered with \<open>start < paragraphs.length\<close>:
  the window it pushes, and the next \<open>start\<close> (\<open>None\<close> when the body leaves the
  loop by \<^verbatim>\<open>if (endExclusive >= paragraphs.length) break\<close>).
  \<^verbatim>\<open>
    let endExclusive = start;
    let combined = '';
    while (endExclusive < paragraphs.length) { ... }
    const approxTokens = approxTokenCount(combined);
    out.push({ start, endExclusive, text: combined, approxTokens });
    if (endExclusive >= paragraphs.length) break;
    if (overlapTokens === 0) { start = endExclusive; continue; }
    let overlapStart = endExclusive;
    let overlapAccum = 0;
    while (overlapStart > start) { ... }
    start = Math.max(overlapStart, start + 1);
  \<close>
\<close>

definition windowBody ::
  "jsstring list \<Rightarrow> int \<Rightarrow> int \<Rightarrow> nat \<Rightarrow> window \<times> nat option" where
  "windowBody paragraphs maxTokens overlapTokens st =
     (case accumulate paragraphs maxTokens st st [] of
        (e, combined) \<Rightarrow>
          let w = \<lparr>start = st, endExclusive = e, wtext = combined,
                   approxTokens = approxTokenCount combined\<rparr>
          in if e \<ge> length paragraphs then (w, None)
             else if overlapTokens = 0 then (w, Some e)
             else (w, Some (max (overlapWalk paragraphs overlapTokens st e 0) (st + 1))))"

lemma windowBody_window:
  assumes "st < length paragraphs"
    and "windowBody paragraphs maxTokens overlapTokens st = (w, nxt)"
  shows "start w = st" and "st < endExclusive w" and "endExclusive w \<le> length paragraphs"
    and "(endExclusive w, wtext w) = accumulate paragraphs maxTokens st st []"
    and "approxTokens w = approxTokenCount (wtext w)"
proof -
  obtain e c where acc: "accumulate paragraphs maxTokens st st [] = (e, c)"
    by (cases "accumulate paragraphs maxTokens st st []")
  from accumulate_progress[OF assms(1) acc] have e: "st < e" "e \<le> length paragraphs"
    by simp_all
  from assms(2) acc have w: "w = \<lparr>start = st, endExclusive = e, wtext = c,
                                  approxTokens = approxTokenCount c\<rparr>"
    by (auto simp: windowBody_def Let_def split: if_splits)
  show "start w = st" by (simp add: w)
  show "st < endExclusive w" by (simp add: w e)
  show "endExclusive w \<le> length paragraphs" by (simp add: w e)
  show "(endExclusive w, wtext w) = accumulate paragraphs maxTokens st st []"
    by (simp add: w acc)
  show "approxTokens w = approxTokenCount (wtext w)" by (simp add: w)
qed

lemma windowBody_next:
  assumes "st < length paragraphs"
    and "windowBody paragraphs maxTokens overlapTokens st = (w, nxt)"
  shows "nxt = None \<longleftrightarrow> endExclusive w = length paragraphs"
    and "nxt = Some st' \<Longrightarrow> st < st' \<and> st' \<le> endExclusive w \<and> st' < length paragraphs"
    and "nxt = Some st' \<Longrightarrow> overlapTokens = 0 \<Longrightarrow> st' = endExclusive w"
proof -
  obtain e c where acc: "accumulate paragraphs maxTokens st st [] = (e, c)"
    by (cases "accumulate paragraphs maxTokens st st []")
  from accumulate_progress[OF assms(1) acc] have e: "st < e" "e \<le> length paragraphs"
    by simp_all
  from overlapWalk_bounds[of st e paragraphs overlapTokens 0] e(1)
  have ow: "overlapWalk paragraphs overlapTokens st e 0 \<le> e" by simp
  from assms(2) acc have we: "endExclusive w = e"
    by (auto simp: windowBody_def Let_def split: if_splits)
  show "nxt = None \<longleftrightarrow> endExclusive w = length paragraphs"
    using assms(2) acc e by (auto simp: windowBody_def Let_def split: if_splits)
  show "nxt = Some st' \<Longrightarrow> st < st' \<and> st' \<le> endExclusive w \<and> st' < length paragraphs"
    using assms(2) acc e ow by (auto simp: windowBody_def Let_def split: if_splits)
  show "nxt = Some st' \<Longrightarrow> overlapTokens = 0 \<Longrightarrow> st' = endExclusive w"
    using assms(2) acc by (auto simp: windowBody_def Let_def split: if_splits)
qed

text \<open>
  The outer loop, \<^verbatim>\<open>while (start < paragraphs.length) { ... }\<close>, from the state
  \<open>(start, out)\<close>.
\<close>

function windowLoop ::
  "jsstring list \<Rightarrow> int \<Rightarrow> int \<Rightarrow> nat \<Rightarrow> window list \<Rightarrow> window list" where
  "windowLoop paragraphs maxTokens overlapTokens st out =
     (if st < length paragraphs then
        case windowBody paragraphs maxTokens overlapTokens st of
          (w, None) \<Rightarrow> out @ [w]
        | (w, Some st') \<Rightarrow> windowLoop paragraphs maxTokens overlapTokens st' (out @ [w])
      else out)"
  by pat_completeness auto
termination
proof (relation "measure (\<lambda>(ps, m, ov, st, out). length ps - st)", goal_cases)
  case 1
  show ?case by simp
next
  case (2 paragraphs maxTokens overlapTokens st out w nxt st')
  then have lt: "st < length paragraphs"
    and body: "windowBody paragraphs maxTokens overlapTokens st = (w, Some st')"
    by simp_all
  from windowBody_next(2)[OF lt body refl] lt show ?case by auto
qed

declare windowLoop.simps [simp del]

text \<open>
  The same loop with a bound on the number of passes through its body: \<open>None\<close> when
  the loop has not been left after \<open>fuel\<close> passes.
\<close>

fun windowLoopFuel ::
  "nat \<Rightarrow> jsstring list \<Rightarrow> int \<Rightarrow> int \<Rightarrow> nat \<Rightarrow> window list \<Rightarrow> window list option" where
  "windowLoopFuel fuel paragraphs maxTokens overlapTokens st out =
     (if st < length paragraphs then
        case fuel of
          0 \<Rightarrow> None
        | Suc fuel' \<Rightarrow>
            (case windowBody paragraphs maxTokens overlapTokens st of
               (w, None) \<Rightarrow> Some (out @ [w])
             | (w, Some st') \<Rightarrow>
                 windowLoopFuel fuel' paragraphs maxTokens overlapTokens st' (out @ [w]))
      else Some out)"

declare windowLoopFuel.simps [simp del]

text \<open>
  \<^verbatim>\<open>
  function buildOverlappedWindows(params) {
    const { paragraphs, maxTokens, overlapTokens } = params;
    if (maxTokens <= 0) throw new Error('--maxTokens must be > 0');
    if (overlapTokens < 0) throw new Error('--overlapTokens must be >= 0');
    if (overlapTokens >= maxTokens) throw new Error('--overlapTokens must be < --maxTokens ...');
    const out = [];
    let start = 0;
    while (start < paragraphs.length) { ... }
    return out;
  }
  \<close>
  A thrown error is the left summand; no window list comes with it. The two numbers
  of the configuration are integers, a token estimate is a natural number.
\<close>

definition buildOverlappedWindows ::
  "jsstring list \<Rightarrow> int \<Rightarrow> int \<Rightarrow> config_error + window list" where
  "buildOverlappedWindows paragraphs maxTokens overlapTokens =
     (if maxTokens \<le> 0 then Inl MaxTokensNotPositive
      else if overlapTokens < 0 then Inl OverlapTokensNegative
      else if overlapTokens \<ge> maxTokens then Inl OverlapTokensNotBelowMax
      else Inr (windowLoop paragraphs maxTokens overlapTokens 0 []))"

section \<open>Joined paragraphs\<close>

text \<open>
  The specification describes the text of a window as the paragraphs of
  \<open>[start, endExclusive)\<close> joined with a blank line between neighbours, which in
  JavaScript is \<^verbatim>\<open>paragraphs.slice(start, endExclusive).join('\n\n')\<close>. The two functions
  below state that description; the code builds the text step by step, in
  \<open>accumulate\<close>.
\<close>

fun joinWith :: "'a list \<Rightarrow> 'a list list \<Rightarrow> 'a list" where
  "joinWith sep [] = []"
| "joinWith sep [x] = x"
| "joinWith sep (x # y # ys) = x @ sep @ joinWith sep (y # ys)"

definition slice :: "'a list \<Rightarrow> nat \<Rightarrow> nat \<Rightarrow> 'a list" where
  "slice xs i j = take (j - i) (drop i xs)"

section \<open>The paragraph splitter\<close>

text \<open>\<^verbatim>\<open>md.replace(/\r\n/g, '\n')\<close> and \<^verbatim>\<open>.replace(/\r/g, '\n')\<close>\<close>

fun replaceCRLF :: "jsstring \<Rightarrow> jsstring" where
  "replaceCRLF [] = []"
| "replaceCRLF [c] = [c]"
| "replaceCRLF (c # d # cs) =
     (if c = CR \<and> d = LF then LF # replaceCRLF cs else c # replaceCRLF (d # cs))"

definition replaceCR :: "jsstring \<Rightarrow> jsstring" where
  "replaceCR s = map (\<lambda>c. if c = CR then LF else c) s"

text \<open>
  The match of \<^verbatim>\<open>/\n\s*\n+/\<close> at the head of a string, as the number of code units it
  takes: a line feed, then the whitespace after it up to and including the last line
  feed of that whitespace run (\<^verbatim>\<open>\s*\<close> is greedy and gives back only what \<^verbatim>\<open>\n+\<close>
  needs). There is no match when the run holds no further line feed.
\<close>

definition blankLineMatch :: "jsstring \<Rightarrow> nat option" where
  "blankLineMatch s =
     (case s of
        [] \<Rightarrow> None
      | c # cs \<Rightarrow>
          if c \<noteq> LF then None
          else let run = takeWhile isSpace cs
               in if LF \<in> set run
                  then Some (1 + (length run - length (takeWhile (\<lambda>x. x \<noteq> LF) (rev run))))
                  else None)"

lemma blankLineMatch_pos: "blankLineMatch s = Some n \<Longrightarrow> 0 < n"
  by (auto simp: blankLineMatch_def Let_def split: list.splits if_splits)

text \<open>
  \<^verbatim>\<open>normalized.split(/\n\s*\n+/)\<close>: the pieces between successive matches, found from
  left to right; \<open>cur\<close> is the piece being read.
\<close>

function splitBlankLines :: "jsstring \<Rightarrow> jsstring \<Rightarrow> jsstring list" where
  "splitBlankLines cur [] = [cur]"
| "splitBlankLines cur (c # cs) =
     (case blankLineMatch (c # cs) of
        Some n \<Rightarrow> cur # splitBlankLines [] (drop n (c # cs))
      | None \<Rightarrow> splitBlankLines (cur @ [c]) cs)"
  by pat_completeness auto
termination
  by (relation "measure (\<lambda>(cur, s). length s)") (auto dest: blankLineMatch_pos)

declare splitBlankLines.simps [simp del]

text \<open>
  \<^verbatim>\<open>
  function splitIntoParagraphs(md: string): string[] {
    const normalized = md.replace(/\r\n/g, '\n').replace(/\r/g, '\n');
    const paras = normalized
      .split(/\n\s*\n+/)
      .map((p) => p.trim())
      .filter((p) => p.length > 0);
    return paras;
  }
  \<close>
\<close>

definition splitIntoParagraphs :: "jsstring \<Rightarrow> jsstring list" where
  "splitIntoParagraphs md =
     (let normalized = replaceCR (replaceCRLF md)
      in filter (\<lambda>p. length p > 0) (map trim (splitBlankLines [] normalized)))"

section \<open>The chunk record assembler\<close>

text \<open>
  The metadata read from \<^verbatim>\<open>metadata.json\<close> (type \<^verbatim>\<open>ExtractMetadata\<close>); the fields that
  \<^verbatim>\<open>main\<close> never reads (\<^verbatim>\<open>toc\<close>, \<^verbatim>\<open>wordCount\<close>, \<^verbatim>\<open>rights\<close>, \<^verbatim>\<open>description\<close>,
  \<^verbatim>\<open>coverId\<close>) are left out. An optional field is an \<open>option\<close>. The record fields carry
  the name of their object as a prefix, the way the columns of the relational schema do.
\<close>

record meta_source =
  source_epubPath :: jsstring
  source_extractedAt :: jsstring

record meta_book =
  meta_title :: "jsstring option"
  meta_author :: "jsstring option"
  meta_language :: "jsstring option"
  meta_publisher :: "jsstring option"
  meta_isbn :: "jsstring option"

record meta_chapter =
  meta_order :: int
  meta_id :: jsstring
  meta_chapter_title :: jsstring
  meta_file :: jsstring
  meta_href :: "jsstring option"

record ExtractMetadata =
  source :: meta_source
  book :: meta_book
  chapters :: "meta_chapter list"

text \<open>\<^verbatim>\<open>ChunkRecord\<close>\<close>

record chunk_book =
  book_slug :: jsstring
  book_title :: "jsstring option"
  book_author :: "jsstring option"
  book_language :: "jsstring option"
  book_publisher :: "jsstring option"
  book_isbn :: "jsstring option"
  book_sourceEpubPath :: jsstring
  book_extractedAt :: jsstring

record chunk_chapter =
  chapter_order :: int
  chapter_id :: jsstring
  chapter_title :: jsstring
  chapter_file :: jsstring
  chapter_href :: "jsstring option"

record chunk_info =
  chunk_index :: nat
  chunk_strategy :: jsstring
  chunk_approxTokens :: nat
  chunk_maxTokens :: int
  chunk_overlapTokens :: int
  chunk_startParagraph :: nat
  chunk_endParagraphExclusive :: nat
  chunk_sha256 :: jsstring

record ChunkRecord =
  chunkId :: jsstring
  rec_book :: chunk_book
  rec_chapter :: chunk_chapter
  rec_chunk :: chunk_info
  rec_text :: jsstring

text \<open>The options of the command line that the chunking reads.\<close>

record chunk_opts =
  opt_maxTokens :: int
  opt_overlapTokens :: int
  opt_includeChapterHeader :: bool

text \<open>
  \<^verbatim>\<open>String(chunkIndex)\<close> for a non-negative integer (below \<open>10^21\<close>, where JavaScript
  still prints every digit), and \<^verbatim>\<open>.padStart(n, pad)\<close>, which fills up to \<open>n\<close> code
  units on the left with repetitions of \<open>pad\<close>.
\<close>

definition digit :: "nat \<Rightarrow> 16 word" where
  "digit d = of_nat (48 + d)"

function decimal :: "nat \<Rightarrow> jsstring" where
  "decimal n = (if n < 10 then [digit n] else decimal (n div 10) @ [digit (n mod 10)])"
  by pat_completeness auto
termination
  by (relation "measure id") auto

declare decimal.simps [simp del]

definition padStart :: "nat \<Rightarrow> jsstring \<Rightarrow> jsstring \<Rightarrow> jsstring" where
  "padStart n pad s =
     (if n \<le> length s \<or> pad = [] then s
      else take (n - length s) (concat (replicate (n - length s) pad)) @ s)"

text \<open>
  \<^verbatim>\<open>
    const chapterHeader = `# ${ch.title}`;
    const parasWithHeader = opts.includeChapterHeader
      ? [chapterHeader, ...paragraphs.filter((p) => p !== chapterHeader)]
      : paragraphs;
  \<close>
\<close>

definition chapterHeader :: "jsstring \<Rightarrow> jsstring" where
  "chapterHeader title = u16 ''# '' @ title"

definition parasWithHeader :: "bool \<Rightarrow> jsstring \<Rightarrow> jsstring list \<Rightarrow> jsstring list" where
  "parasWithHeader includeChapterHeader title paragraphs =
     (if includeChapterHeader
      then chapterHeader title # filter (\<lambda>p. p \<noteq> chapterHeader title) paragraphs
      else paragraphs)"

text \<open>
  The record built for one window, with the running \<open>chunkIndex\<close> and the trimmed text.
  \<open>sha256Hex\<close> is the digest of the crypto library, a parameter here.
\<close>

definition mkChunkId :: "jsstring \<Rightarrow> nat \<Rightarrow> jsstring" where
  "mkChunkId bookSlug chunkIndex =
     u16 ''chunk_'' @ bookSlug @ u16 ''_'' @ padStart 6 (u16 ''0'') (decimal chunkIndex)"

definition mkRecord ::
  "(jsstring \<Rightarrow> jsstring) \<Rightarrow> ExtractMetadata \<Rightarrow> jsstring \<Rightarrow> chunk_opts \<Rightarrow>
   meta_chapter \<Rightarrow> window \<Rightarrow> nat \<Rightarrow> jsstring \<Rightarrow> ChunkRecord" where
  "mkRecord sha256Hex metadata bookSlug opts ch w chunkIndex txt =
     \<lparr>chunkId = mkChunkId bookSlug chunkIndex,
      rec_book = \<lparr>book_slug = bookSlug,
                  book_title = meta_title (book metadata),
                  book_author = meta_author (book metadata),
                  book_language = meta_language (book metadata),
                  book_publisher = meta_publisher (book metadata),
                  book_isbn = meta_isbn (book metadata),
                  book_sourceEpubPath = source_epubPath (source metadata),
                  book_extractedAt = source_extractedAt (source metadata)\<rparr>,
      rec_chapter = \<lparr>chapter_order = meta_order ch,
                     chapter_id = meta_id ch,
                     chapter_title = meta_chapter_title ch,
                     chapter_file = meta_file ch,
                     chapter_href = meta_href ch\<rparr>,
      rec_chunk = \<lparr>chunk_index = chunkIndex,
                   chunk_strategy = u16 ''paragraph_window_v1'',
                   chunk_approxTokens = approxTokens w,
                   chunk_maxTokens = opt_maxTokens opts,
                   chunk_overlapTokens = opt_overlapTokens opts,
                   chunk_startParagraph = start w,
                   chunk_endParagraphExclusive = endExclusive w,
                   chunk_sha256 = sha256Hex txt\<rparr>,
      rec_text = txt\<rparr>"

text \<open>
  The loop over the windows of one chapter, on the state \<open>(lines, chunkIndex)\<close>; a line
  is kept as the record that \<^verbatim>\<open>JSON.stringify\<close> prints.
  \<^verbatim>\<open>
    for (const w of windows) {
      const text = w.text.trim();
      if (!text) continue;
      const chunkId = `chunk_${bookSlug}_${String(chunkIndex).padStart(6, '0')}`;
      const record: ChunkRecord = { ... };
      lines.push(JSON.stringify(record));
      chunkIndex += 1;
    }
  \<close>
\<close>

fun assembleWindows ::
  "(jsstring \<Rightarrow> jsstring) \<Rightarrow> ExtractMetadata \<Rightarrow> jsstring \<Rightarrow> chunk_opts \<Rightarrow>
   meta_chapter \<Rightarrow> window list \<Rightarrow> ChunkRecord list \<times> nat \<Rightarrow> ChunkRecord list \<times> nat" where
  "assembleWindows sha256Hex metadata bookSlug opts ch [] (lines, chunkIndex) =
     (lines, chunkIndex)"
| "assembleWindows sha256Hex metadata bookSlug opts ch (w # windows) (lines, chunkIndex) =
     (let txt = trim (wtext w)
      in if txt = [] then
           assembleWindows sha256Hex metadata bookSlug opts ch windows (lines, chunkIndex)
         else
           assembleWindows sha256Hex metadata bookSlug opts ch windows
             (lines @ [mkRecord sha256Hex metadata bookSlug opts ch w chunkIndex txt],
              chunkIndex + 1))"

text \<open>
  The loop over the sorted chapters. \<open>readFile\<close> is the file system under the book
  directory: \<open>None\<close> for a chapter file that does not exist (the chapter is skipped),
  the content otherwise. An error thrown by \<^verbatim>\<open>buildOverlappedWindows\<close> leaves \<^verbatim>\<open>main\<close>.
  \<^verbatim>\<open>
    for (const ch of chaptersSorted) {
      const chapterPath = path.join(bookDir, ch.file);
      if (!(await fs.pathExists(chapterPath))) { console.warn(...); continue; }
      const md = await fs.readFile(chapterPath, 'utf8');
      const paragraphs = splitIntoParagraphs(md);
      const chapterHeader = ...; const parasWithHeader = ...;
      const windows = buildOverlappedWindows({ paragraphs: parasWithHeader,
        maxTokens: opts.maxTokens, overlapTokens: opts.overlapTokens });
      for (const w of windows) { ... }
    }
  \<close>
\<close>

fun assembleChapters ::
  "(jsstring \<Rightarrow> jsstring) \<Rightarrow> (jsstring \<Rightarrow> jsstring option) \<Rightarrow> ExtractMetadata \<Rightarrow> jsstring \<Rightarrow>
   chunk_opts \<Rightarrow> meta_chapter list \<Rightarrow> ChunkRecord list \<times> nat \<Rightarrow>
   config_error + ChunkRecord list \<times> nat" where
  "assembleChapters sha256Hex readFile metadata bookSlug opts [] state = Inr state"
| "assembleChapters sha256Hex readFile metadata bookSlug opts (ch # chs) state =
     (case readFile (meta_file ch) of
        None \<Rightarrow> assembleChapters sha256Hex readFile metadata bookSlug opts chs state
      | Some md \<Rightarrow>
          (case buildOverlappedWindows
                  (parasWithHeader (opt_includeChapterHeader opts) (meta_chapter_title ch)
                     (splitIntoParagraphs md))
                  (opt_maxTokens opts) (opt_overlapTokens opts) of
             Inl err \<Rightarrow> Inl err
           | Inr windows \<Rightarrow>
               assembleChapters sha256Hex readFile metadata bookSlug opts chs
                 (assembleWindows sha256Hex metadata bookSlug opts ch windows state)))"

text \<open>
  \<^verbatim>\<open>main\<close>, from the metadata on: the lines written to \<^verbatim>\<open>chunks.jsonl\<close>.
  \<^verbatim>\<open>
    const lines: string[] = [];
    let chunkIndex = 0;
    const chaptersSorted = [...metadata.chapters].sort((a, b) => a.order - b.order);
    for (const ch of chaptersSorted) { ... }
    await fs.writeFile(chunksPath, ...lines...);
  \<close>
  \<^verbatim>\<open>Array.prototype.sort\<close> is stable, as \<open>sort_key\<close> is.
\<close>

definition main ::
  "(jsstring \<Rightarrow> jsstring) \<Rightarrow> (jsstring \<Rightarrow> jsstring option) \<Rightarrow> ExtractMetadata \<Rightarrow> jsstring \<Rightarrow>
   chunk_opts \<Rightarrow> config_error + ChunkRecord list" where
  "main sha256Hex readFile metadata bookSlug opts =
     (let chaptersSorted = sort_key meta_order (chapters metadata)
      in case assembleChapters sha256Hex readFile metadata bookSlug opts chaptersSorted ([], 0) of
           Inl err \<Rightarrow> Inl err
         | Inr (lines, chunkIndex) \<Rightarrow> Inr lines)"


text \<open>
  What the assembler is to produce, in the words of the specification: the windows of
  the book in chapter order, then window order, those with empty trimmed text dropped,
  and the records of the remaining ones numbered consecutively.
\<close>

definition chapterWindows ::
  "(jsstring \<Rightarrow> jsstring option) \<Rightarrow> chunk_opts \<Rightarrow> meta_chapter \<Rightarrow> (meta_chapter \<times> window) list"
  where
  "chapterWindows readFile opts ch =
     (case readFile (meta_file ch) of
        None \<Rightarrow> []
      | Some md \<Rightarrow>
          (case buildOverlappedWindows
                  (parasWithHeader (opt_includeChapterHeader opts) (meta_chapter_title ch)
                     (splitIntoParagraphs md))
                  (opt_maxTokens opts) (opt_overlapTokens opts) of
             Inl err \<Rightarrow> []
           | Inr windows \<Rightarrow> map (Pair ch) windows))"

definition keptWindows ::
  "(jsstring \<Rightarrow> jsstring option) \<Rightarrow> chunk_opts \<Rightarrow> ExtractMetadata \<Rightarrow> (meta_chapter \<times> window) list"
  where
  "keptWindows readFile opts metadata =
     filter (\<lambda>(ch, w). trim (wtext w) \<noteq> [])
       (concat (map (chapterWindows readFile opts) (sort_key meta_order (chapters metadata))))"

fun indexedRecords ::
  "(jsstring \<Rightarrow> jsstring) \<Rightarrow> ExtractMetadata \<Rightarrow> jsstring \<Rightarrow> chunk_opts \<Rightarrow> nat \<Rightarrow>
   (meta_chapter \<times> window) list \<Rightarrow> ChunkRecord list" where
  "indexedRecords sha256Hex metadata bookSlug opts i [] = []"
| "indexedRecords sha256Hex metadata bookSlug opts i ((ch, w) # rest) =
     mkRecord sha256Hex metadata bookSlug opts ch w i (trim (wtext w))
     # indexedRecords sha256Hex metadata bookSlug opts (Suc i) rest"

section \<open>The ingest writer\<close>

text \<open>
  A value that \<^verbatim>\<open>JSON.parse\<close> returns. The members of an object are kept as the list
  of its own properties; \<open>None\<close> of \<open>json option\<close> is \<^verbatim>\<open>undefined\<close>. Of a number only
  whether it is zero matters here.
\<close>

datatype json =
    JNull
  | JBool bool
  | JNum int
  | JStr jsstring
  | JArr "json list"
  | JObj "(jsstring \<times> json) list"

datatype js_error =
    TypeError
  | Thrown jsstring

text \<open>
  \<^verbatim>\<open>v.k\<close> and \<^verbatim>\<open>v?.k\<close>, for the keys the writer reads (\<^verbatim>\<open>chunkId\<close>, \<^verbatim>\<open>book\<close>,
  \<^verbatim>\<open>slug\<close>, \<^verbatim>\<open>text\<close>), none of which is a property of a string, a number, a boolean or
  an array: reading a property of \<^verbatim>\<open>null\<close> or \<^verbatim>\<open>undefined\<close> throws a TypeError, unless
  the access is the optional one.
\<close>

fun getProp :: "json option \<Rightarrow> jsstring \<Rightarrow> js_error + json option" where
  "getProp None k = Inl TypeError"
| "getProp (Some JNull) k = Inl TypeError"
| "getProp (Some (JObj members)) k = Inr (map_of members k)"
| "getProp (Some v) k = Inr None"

fun getPropOptional :: "json option \<Rightarrow> jsstring \<Rightarrow> js_error + json option" where
  "getPropOptional None k = Inr None"
| "getPropOptional (Some JNull) k = Inr None"
| "getPropOptional v k = getProp v k"

text \<open>The truthiness that \<^verbatim>\<open>!\<close> and \<^verbatim>\<open>&&\<close> test.\<close>

fun truthy :: "json option \<Rightarrow> bool" where
  "truthy None = False"
| "truthy (Some JNull) = False"
| "truthy (Some (JBool b)) = b"
| "truthy (Some (JNum n)) = (n \<noteq> 0)"
| "truthy (Some (JStr s)) = (s \<noteq> [])"
| "truthy (Some (JArr vs)) = True"
| "truthy (Some (JObj members)) = True"

text \<open>
  \<^verbatim>\<open>rec.chunkId && rec.book?.slug && rec.text\<close>, evaluated from left to right; the
  source tests its negation, \<^verbatim>\<open>!rec.chunkId || !rec.book?.slug || !rec.text\<close>.
\<close>

definition hasRequiredFields :: "json \<Rightarrow> js_error + bool" where
  "hasRequiredFields rec =
     (case getProp (Some rec) (u16 ''chunkId'') of
        Inl e \<Rightarrow> Inl e
      | Inr cid \<Rightarrow>
          if \<not> truthy cid then Inr False
          else (case getProp (Some rec) (u16 ''book'') of
                  Inl e \<Rightarrow> Inl e
                | Inr bk \<Rightarrow>
                    (case getPropOptional bk (u16 ''slug'') of
                       Inl e \<Rightarrow> Inl e
                     | Inr slug \<Rightarrow>
                         if \<not> truthy slug then Inr False
                         else (case getProp (Some rec) (u16 ''text'') of
                                 Inl e \<Rightarrow> Inl e
                               | Inr txt \<Rightarrow> Inr (truthy txt)))))"

text \<open>
  \<^verbatim>\<open>seenBooks.has(v)\<close> compares by SameValueZero: primitives by value, objects and
  arrays by identity, and a freshly parsed object is identical to no earlier one.
\<close>

fun sameValueZero :: "json option \<Rightarrow> json option \<Rightarrow> bool" where
  "sameValueZero (Some (JArr vs)) v = False"
| "sameValueZero (Some (JObj members)) v = False"
| "sameValueZero u v = (u = v)"

definition setHas :: "json option list \<Rightarrow> json option \<Rightarrow> bool" where
  "setHas seen v = list_ex (\<lambda>u. sameValueZero u v) seen"

text \<open>
  The counters of \<^verbatim>\<open>IngestStats\<close> that the loop updates and its \<^verbatim>\<open>notes\<close> (the
  field \<open>notesList\<close>), with the set \<^verbatim>\<open>seenBooks\<close> and the database behind the pool.
\<close>

record 'db ingest_state =
  db :: 'db
  seenBooks :: "json option list"
  booksUpserted :: nat
  chunksUpserted :: nat
  chunksFailed :: nat
  notesList :: "jsstring list"

text \<open>
  The two statements sent to the database are parameters: \<open>upsertBook\<close> and
  \<open>upsertChunkBatch\<close> take the database and give the new one, or \<open>Inl\<close> of
  \<^verbatim>\<open>String(err)\<close> for the error they throw.
  \<^verbatim>\<open>
      const flush = async () => {
        if (batch.length === 0) return;
        await upsertChunkBatch(pool, batch);
        stats.chunksUpserted += batch.length;
        batch.length = 0;
      };
  \<close>
\<close>

definition flush ::
  "('db \<Rightarrow> json list \<Rightarrow> jsstring + 'db) \<Rightarrow> 'db ingest_state \<Rightarrow> json list \<Rightarrow>
   jsstring + 'db ingest_state \<times> json list" where
  "flush upsertChunkBatch s batch =
     (if length batch = 0 then Inr (s, batch)
      else (case upsertChunkBatch (db s) batch of
              Inl err \<Rightarrow> Inl err
            | Inr db' \<Rightarrow>
                Inr (s\<lparr>db := db', chunksUpserted := chunksUpserted s + length batch\<rparr>, [])))"

text \<open>
  \<^verbatim>\<open>
          if (!seenBooks.has(rec.book.slug)) {
            await upsertBook(pool, rec.book);
            seenBooks.add(rec.book.slug);
            stats.booksUpserted += 1;
          }
  \<close>
\<close>

definition upsertBookOnce ::
  "('db \<Rightarrow> json option \<Rightarrow> jsstring + 'db) \<Rightarrow> json \<Rightarrow> 'db ingest_state \<Rightarrow>
   js_error + 'db ingest_state" where
  "upsertBookOnce upsertBook rec s =
     (case getProp (Some rec) (u16 ''book'') of
        Inl e \<Rightarrow> Inl e
      | Inr bk \<Rightarrow>
          (case getProp bk (u16 ''slug'') of
             Inl e \<Rightarrow> Inl e
           | Inr slug \<Rightarrow>
               if \<not> setHas (seenBooks s) slug then
                 (case upsertBook (db s) bk of
                    Inl err \<Rightarrow> Inl (Thrown err)
                  | Inr db' \<Rightarrow>
                      Inr (s\<lparr>db := db', seenBooks := seenBooks s @ [slug],
                             booksUpserted := booksUpserted s + 1\<rparr>))
               else Inr s))"


text \<open>
  The body of the \<^verbatim>\<open>while (true)\<close> loop for one line cut from the buffer, on the state
  and the batch; \<open>parse\<close> is \<^verbatim>\<open>JSON.parse\<close>, \<open>None\<close> when it throws.
  \<^verbatim>\<open>
          const line = buffer.slice(0, idx).trim();
          buffer = buffer.slice(idx + 1);
          if (!line) continue;
          let rec: ChunkRecord;
          try { rec = JSON.parse(line) as ChunkRecord; } catch { continue; }
          if (!rec.chunkId || !rec.book?.slug || !rec.text) { continue; }
          if (!seenBooks.has(rec.book.slug)) { ... }
          batch.push(rec);
          if (batch.length >= opts.batchSize) {
            try { await flush(); } catch (err) {
              stats.chunksFailed += batch.length;
              stats.notes.push(`Failed batch insert for ${filePath}: ${String(err)}`);
              batch.length = 0;
            }
          }
  \<close>
  Nothing catches an error thrown by the test of the three fields or by \<^verbatim>\<open>upsertBook\<close>:
  it leaves \<^verbatim>\<open>main\<close>.
\<close>

definition processLine ::
  "(jsstring \<Rightarrow> json option) \<Rightarrow> ('db \<Rightarrow> json option \<Rightarrow> jsstring + 'db) \<Rightarrow>
   ('db \<Rightarrow> json list \<Rightarrow> jsstring + 'db) \<Rightarrow> int \<Rightarrow> jsstring \<Rightarrow> jsstring \<Rightarrow>
   'db ingest_state \<Rightarrow> json list \<Rightarrow> js_error + 'db ingest_state \<times> json list" where
  "processLine parse upsertBook upsertChunkBatch batchSize filePath line s batch =
     (if line = [] then Inr (s, batch)
      else (case parse line of
              None \<Rightarrow> Inr (s, batch)
            | Some rec \<Rightarrow>
                (case hasRequiredFields rec of
                   Inl e \<Rightarrow> Inl e
                 | Inr False \<Rightarrow> Inr (s, batch)
                 | Inr True \<Rightarrow>
                     (case upsertBookOnce upsertBook rec s of
                        Inl e \<Rightarrow> Inl e
                      | Inr s1 \<Rightarrow>
                          if int (length (batch @ [rec])) \<ge> batchSize then
                            (case flush upsertChunkBatch s1 (batch @ [rec]) of
                               Inl err \<Rightarrow>
                                 Inr (s1\<lparr>chunksFailed :=
                                           chunksFailed s1 + length (batch @ [rec]),
                                         notesList := notesList s1 @
                                           [u16 ''Failed batch insert for '' @ filePath @
                                            u16 '': '' @ err]\<rparr>,
                                      [])
                             | Inr sb2 \<Rightarrow> Inr sb2)
                          else Inr (s1, batch @ [rec])))))"

text \<open>
  \<^verbatim>\<open>
        while (true) {
          const idx = buffer.indexOf('\n');
          if (idx === -1) break;
          ...
        }
  \<close>
\<close>

function drainBuffer ::
  "(jsstring \<Rightarrow> json option) \<Rightarrow> ('db \<Rightarrow> json option \<Rightarrow> jsstring + 'db) \<Rightarrow>
   ('db \<Rightarrow> json list \<Rightarrow> jsstring + 'db) \<Rightarrow> int \<Rightarrow> jsstring \<Rightarrow> jsstring \<Rightarrow>
   'db ingest_state \<Rightarrow> json list \<Rightarrow> js_error + jsstring \<times> 'db ingest_state \<times> json list" where
  "drainBuffer parse upsertBook upsertChunkBatch batchSize filePath buffer s batch =
     (if LF \<in> set buffer then
        (let idx = length (takeWhile (\<lambda>c. c \<noteq> LF) buffer);
             line = trim (take idx buffer);
             buffer' = drop (idx + 1) buffer
         in (case processLine parse upsertBook upsertChunkBatch batchSize filePath line s batch of
               Inl e \<Rightarrow> Inl e
             | Inr (s', batch') \<Rightarrow>
                 drainBuffer parse upsertBook upsertChunkBatch batchSize filePath buffer'
                   s' batch'))
      else Inr (buffer, s, batch))"
  by pat_completeness auto
termination
  by (relation "measure (\<lambda>(p, ub, uc, n, f, buffer, s, batch). length buffer)")
     (auto simp: in_set_conv_decomp)

declare drainBuffer.simps [simp del]

text \<open>
  \<^verbatim>\<open>for await (const chunk of stream) { buffer += chunk; while (true) { ... } }\<close>,
  over the pieces in which the stream delivers the file.
\<close>

fun readStream ::
  "(jsstring \<Rightarrow> json option) \<Rightarrow> ('db \<Rightarrow> json option \<Rightarrow> jsstring + 'db) \<Rightarrow>
   ('db \<Rightarrow> json list \<Rightarrow> jsstring + 'db) \<Rightarrow> int \<Rightarrow> jsstring \<Rightarrow> jsstring list \<Rightarrow> jsstring \<Rightarrow>
   'db ingest_state \<Rightarrow> json list \<Rightarrow> js_error + jsstring \<times> 'db ingest_state \<times> json list" where
  "readStream parse upsertBook upsertChunkBatch batchSize filePath [] buffer s batch =
     Inr (buffer, s, batch)"
| "readStream parse upsertBook upsertChunkBatch batchSize filePath (chunk # chunks) buffer s batch =
     (case drainBuffer parse upsertBook upsertChunkBatch batchSize filePath (buffer @ chunk)
             s batch of
        Inl e \<Rightarrow> Inl e
      | Inr (buffer', s', batch') \<Rightarrow>
          readStream parse upsertBook upsertChunkBatch batchSize filePath chunks buffer'
            s' batch')"

text \<open>
  The last buffered line; every error thrown in it is caught and ignored.
  \<^verbatim>\<open>
      const last = buffer.trim();
      if (last) {
        try {
          const rec = JSON.parse(last) as ChunkRecord;
          if (rec.chunkId && rec.book?.slug && rec.text) {
            if (!seenBooks.has(rec.book.slug)) { ... }
            batch.push(rec);
          }
        } catch { /* ignore */ }
      }
  \<close>
\<close>

definition lastLine ::
  "(jsstring \<Rightarrow> json option) \<Rightarrow> ('db \<Rightarrow> json option \<Rightarrow> jsstring + 'db) \<Rightarrow> jsstring \<Rightarrow>
   'db ingest_state \<Rightarrow> json list \<Rightarrow> 'db ingest_state \<times> json list" where
  "lastLine parse upsertBook buffer s batch =
     (if trim buffer = [] then (s, batch)
      else (case parse (trim buffer) of
              None \<Rightarrow> (s, batch)
            | Some rec \<Rightarrow>
                (case hasRequiredFields rec of
                   Inl e \<Rightarrow> (s, batch)
                 | Inr False \<Rightarrow> (s, batch)
                 | Inr True \<Rightarrow>
                     (case upsertBookOnce upsertBook rec s of
                        Inl e \<Rightarrow> (s, batch)
                      | Inr s1 \<Rightarrow> (s1, batch @ [rec])))))"

text \<open>
  One file of the loop \<^verbatim>\<open>for (const filePath of files)\<close>: a fresh buffer and batch, the
  stream, the last line, and the final flush.
  \<^verbatim>\<open>
      try { await flush(); } catch (err) {
        stats.chunksFailed += batch.length;
        stats.notes.push(`Failed final batch insert for ${filePath}: ${String(err)}`);
      }
  \<close>
\<close>

definition ingestFile ::
  "(jsstring \<Rightarrow> json option) \<Rightarrow> ('db \<Rightarrow> json option \<Rightarrow> jsstring + 'db) \<Rightarrow>
   ('db \<Rightarrow> json list \<Rightarrow> jsstring + 'db) \<Rightarrow> int \<Rightarrow> jsstring \<Rightarrow> jsstring list \<Rightarrow>
   'db ingest_state \<Rightarrow> js_error + 'db ingest_state" where
  "ingestFile parse upsertBook upsertChunkBatch batchSize filePath chunks s =
     (case readStream parse upsertBook upsertChunkBatch batchSize filePath chunks [] s [] of
        Inl e \<Rightarrow> Inl e
      | Inr (buffer, s1, batch1) \<Rightarrow>
          (case lastLine parse upsertBook buffer s1 batch1 of
             (s2, batch2) \<Rightarrow>
               (case flush upsertChunkBatch s2 batch2 of
                  Inl err \<Rightarrow>
                    Inr (s2\<lparr>chunksFailed := chunksFailed s2 + length batch2,
                            notesList := notesList s2 @
                              [u16 ''Failed final batch insert for '' @ filePath @
                               u16 '': '' @ err]\<rparr>)
                | Inr (s3, batch3) \<Rightarrow> Inr s3)))"

text \<open>The loop over the files, each given with the pieces its stream delivers.\<close>

fun ingestFiles ::
  "(jsstring \<Rightarrow> json option) \<Rightarrow> ('db \<Rightarrow> json option \<Rightarrow> jsstring + 'db) \<Rightarrow>
   ('db \<Rightarrow> json list \<Rightarrow> jsstring + 'db) \<Rightarrow> int \<Rightarrow> (jsstring \<times> jsstring list) list \<Rightarrow>
   'db ingest_state \<Rightarrow> js_error + 'db ingest_state" where
  "ingestFiles parse upsertBook upsertChunkBatch batchSize [] s = Inr s"
| "ingestFiles parse upsertBook upsertChunkBatch batchSize ((filePath, chunks) # files) s =
     (case ingestFile parse upsertBook upsertChunkBatch batchSize filePath chunks s of
        Inl e \<Rightarrow> Inl e
      | Inr s' \<Rightarrow> ingestFiles parse upsertBook upsertChunkBatch batchSize files s')"

section \<open>Sample inputs\<close>

text \<open>A book of two chapters, listed out of order, the second file missing a blank line.\<close>

definition sampleMetadata :: ExtractMetadata where
  "sampleMetadata =
     \<lparr>source = \<lparr>source_epubPath = u16 ''book.epub'', source_extractedAt = u16 ''2026-01-01''\<rparr>,
      book = \<lparr>meta_title = Some (u16 ''Book''), meta_author = None, meta_language = None,
               meta_publisher = None, meta_isbn = None\<rparr>,
      chapters =
        [\<lparr>meta_order = 2, meta_id = u16 ''c2'', meta_chapter_title = u16 ''Two'',
          meta_file = u16 ''chapters/two.md'', meta_href = None\<rparr>,
         \<lparr>meta_order = 1, meta_id = u16 ''c1'', meta_chapter_title = u16 ''One'',
          meta_file = u16 ''chapters/one.md'', meta_href = None\<rparr>]\<rparr>"

definition sampleFiles :: "jsstring \<Rightarrow> jsstring option" where
  "sampleFiles f =
     (if f = u16 ''chapters/one.md'' then Some (u16 ''# One'' @ [LF, LF] @ u16 ''a b c d'')
      else if f = u16 ''chapters/two.md'' then Some (u16 ''e f'' @ [CR, LF, CR, LF] @ u16 ''g'')
      else None)"

definition sampleOpts :: chunk_opts where
  "sampleOpts = \<lparr>opt_maxTokens = 4, opt_overlapTokens = 1, opt_includeChapterHeader = True\<rparr>"

text \<open>
  A file \<^verbatim>\<open>a.jsonl\<close> holding the line \<^verbatim>\<open>null\<close> and then the line of a complete record,
  followed by a second file: with a parser that reads \<^verbatim>\<open>null\<close>, a database that never
  fails and the initial counters, the run stops with the TypeError.
\<close>

definition sampleParse :: "jsstring \<Rightarrow> json option" where
  "sampleParse l = (if l = u16 ''null'' then Some JNull else None)"

definition sampleState :: "unit ingest_state" where
  "sampleState = \<lparr>db = (), seenBooks = [], booksUpserted = 0, chunksUpserted = 0,
                   chunksFailed = 0, notesList = []\<rparr>"

section \<open>The outer loop, window by window\<close>

lemma windowLoop_exit:
  "\<not> st < length paragraphs \<Longrightarrow> windowLoop paragraphs maxTokens overlapTokens st out = out"
  by (subst windowLoop.simps) simp

lemma windowLoop_last:
  "st < length paragraphs \<Longrightarrow> windowBody paragraphs maxTokens overlapTokens st = (w, None) \<Longrightarrow>
   windowLoop paragraphs maxTokens overlapTokens st out = out @ [w]"
  by (subst windowLoop.simps) simp

lemma windowLoop_more:
  "st < length paragraphs \<Longrightarrow> windowBody paragraphs maxTokens overlapTokens st = (w, Some st') \<Longrightarrow>
   windowLoop paragraphs maxTokens overlapTokens st out
   = windowLoop paragraphs maxTokens overlapTokens st' (out @ [w])"
  by (subst windowLoop.simps) simp

lemma windowLoop_append:
  "windowLoop paragraphs maxTokens overlapTokens st out
   = out @ windowLoop paragraphs maxTokens overlapTokens st []"
proof (induction "length paragraphs - st" arbitrary: st out rule: less_induct)
  case less
  show ?case
  proof (cases "st < length paragraphs")
    case False
    then show ?thesis by (simp add: windowLoop_exit)
  next
    case True
    obtain w nxt where body: "windowBody paragraphs maxTokens overlapTokens st = (w, nxt)"
      by (cases "windowBody paragraphs maxTokens overlapTokens st")
    show ?thesis
    proof (cases nxt)
      case None
      with True body show ?thesis by (simp add: windowLoop_last)
    next
      case (Some st')
      from windowBody_next(2)[OF True body Some] True
      have dec: "length paragraphs - st' < length paragraphs - st" by auto
      have "windowLoop paragraphs maxTokens overlapTokens st out
            = (out @ [w]) @ windowLoop paragraphs maxTokens overlapTokens st' []"
        using True body Some less[OF dec, of "out @ [w]"] by (simp add: windowLoop_more)
      moreover have "windowLoop paragraphs maxTokens overlapTokens st []
            = [w] @ windowLoop paragraphs maxTokens overlapTokens st' []"
        using True body Some less[OF dec, of "[w]"] by (simp add: windowLoop_more)
      ultimately show ?thesis by simp
    qed
  qed
qed

lemma windowLoop_Cons:
  "st < length paragraphs \<Longrightarrow> windowBody paragraphs maxTokens overlapTokens st = (w, Some st') \<Longrightarrow>
   windowLoop paragraphs maxTokens overlapTokens st []
   = w # windowLoop paragraphs maxTokens overlapTokens st' []"
  using windowLoop_append[of paragraphs maxTokens overlapTokens st' "[w]"]
  by (simp add: windowLoop_more)

text \<open>Induction over the windows pushed from a given \<open>start\<close> on.\<close>

lemma windowLoop_induct [case_names exit last more]:
  assumes ex: "\<And>st. \<not> st < length paragraphs \<Longrightarrow> P st []"
    and la: "\<And>st w. st < length paragraphs \<Longrightarrow>
               windowBody paragraphs maxTokens overlapTokens st = (w, None) \<Longrightarrow> P st [w]"
    and mo: "\<And>st w st'. st < length paragraphs \<Longrightarrow>
               windowBody paragraphs maxTokens overlapTokens st = (w, Some st') \<Longrightarrow>
               P st' (windowLoop paragraphs maxTokens overlapTokens st' []) \<Longrightarrow>
               P st (w # windowLoop paragraphs maxTokens overlapTokens st' [])"
  shows "P st (windowLoop paragraphs maxTokens overlapTokens st [])"
proof (induction "length paragraphs - st" arbitrary: st rule: less_induct)
  case less
  show ?case
  proof (cases "st < length paragraphs")
    case False
    then show ?thesis using ex by (simp add: windowLoop_exit)
  next
    case True
    obtain w nxt where body: "windowBody paragraphs maxTokens overlapTokens st = (w, nxt)"
      by (cases "windowBody paragraphs maxTokens overlapTokens st")
    show ?thesis
    proof (cases nxt)
      case None
      with True body la show ?thesis by (simp add: windowLoop_last)
    next
      case (Some st')
      from windowBody_next(2)[OF True body Some] True
      have dec: "length paragraphs - st' < length paragraphs - st" by auto
      from mo[OF True body[unfolded Some] less[OF dec]] True body Some
      show ?thesis by (simp add: windowLoop_Cons)
    qed
  qed
qed

lemma windowLoopFuel_enough:
  "length paragraphs - st \<le> fuel \<Longrightarrow>
   windowLoopFuel fuel paragraphs maxTokens overlapTokens st out
   = Some (windowLoop paragraphs maxTokens overlapTokens st out)"
proof (induction fuel arbitrary: st out)
  case 0
  then have "\<not> st < length paragraphs" by simp
  then show ?case
    by (subst windowLoopFuel.simps) (simp add: windowLoop_exit)
next
  case (Suc fuel)
  show ?case
  proof (cases "st < length paragraphs")
    case False
    then show ?thesis
      by (subst windowLoopFuel.simps) (simp add: windowLoop_exit)
  next
    case True
    obtain w nxt where body: "windowBody paragraphs maxTokens overlapTokens st = (w, nxt)"
      by (cases "windowBody paragraphs maxTokens overlapTokens st")
    show ?thesis
    proof (cases nxt)
      case None
      with True body show ?thesis
        by (subst windowLoopFuel.simps) (simp add: windowLoop_last)
    next
      case (Some st')
      from windowBody_next(2)[OF True body Some] Suc.prems
      have "length paragraphs - st' \<le> fuel" by auto
      from Suc.IH[OF this, of "out @ [w]"] True body Some show ?thesis
        by (subst windowLoopFuel.simps) (simp add: windowLoop_more)
    qed
  qed
qed

text \<open>Every window was pushed by a pass through the loop body at its own \<open>start\<close>.\<close>

lemma windowLoop_from_body:
  "\<forall>w \<in> set (windowLoop paragraphs maxTokens overlapTokens st []).
     st \<le> start w \<and> start w < length paragraphs \<and>
     w = fst (windowBody paragraphs maxTokens overlapTokens (start w))"
proof (induction st rule: windowLoop_induct[where paragraphs = paragraphs
         and maxTokens = maxTokens and overlapTokens = overlapTokens])
  case (exit st)
  show ?case by simp
next
  case (last st w)
  from windowBody_window(1)[OF last] last show ?case by simp
next
  case (more st w st')
  from windowBody_window(1)[OF more(1,2)] windowBody_next(2)[OF more(1,2) refl] more
  show ?case by auto
qed

lemma windowLoop_length:
  "length (windowLoop paragraphs maxTokens overlapTokens st []) \<le> length paragraphs - st"
proof (induction st rule: windowLoop_induct[where paragraphs = paragraphs
         and maxTokens = maxTokens and overlapTokens = overlapTokens])
  case (exit st)
  show ?case by simp
next
  case (last st w)
  then show ?case by simp
next
  case (more st w st')
  from windowBody_next(2)[OF more(1,2) refl] more(3) show ?case by auto
qed

lemma windowLoop_starts_increase:
  "sorted_wrt (\<lambda>a b. start a < start b) (windowLoop paragraphs maxTokens overlapTokens st [])"
proof (induction st rule: windowLoop_induct[where paragraphs = paragraphs
         and maxTokens = maxTokens and overlapTokens = overlapTokens])
  case (exit st)
  show ?case by simp
next
  case (last st w)
  show ?case by simp
next
  case (more st w st')
  from windowBody_window(1)[OF more(1,2)] windowBody_next(2)[OF more(1,2) refl]
    windowLoop_from_body[of paragraphs maxTokens overlapTokens st'] more(3)
  show ?case by fastforce
qed

lemma windowLoop_first:
  "st < length paragraphs \<Longrightarrow>
   windowLoop paragraphs maxTokens overlapTokens st [] \<noteq> [] \<and>
   start (hd (windowLoop paragraphs maxTokens overlapTokens st [])) = st"
proof -
  assume lt: "st < length paragraphs"
  obtain w nxt where body: "windowBody paragraphs maxTokens overlapTokens st = (w, nxt)"
    by (cases "windowBody paragraphs maxTokens overlapTokens st")
  show ?thesis
  proof (cases nxt)
    case None
    with lt body windowBody_window(1)[OF lt body] show ?thesis
      by (simp add: windowLoop_last)
  next
    case (Some st')
    with lt body windowBody_window(1)[OF lt body] show ?thesis
      by (simp add: windowLoop_Cons)
  qed
qed

lemma windowLoop_final_end:
  "windowLoop paragraphs maxTokens overlapTokens st [] \<noteq> [] \<longrightarrow>
   endExclusive (last (windowLoop paragraphs maxTokens overlapTokens st [])) = length paragraphs"
proof (induction st rule: windowLoop_induct[where paragraphs = paragraphs
         and maxTokens = maxTokens and overlapTokens = overlapTokens])
  case (exit st)
  show ?case by simp
next
  case (last st w)
  from windowBody_next(1)[OF last] show ?case by simp
next
  case (more st w st')
  from windowBody_next(2)[OF more(1,2) refl] have "st' < length paragraphs" by simp
  from windowLoop_first[OF this] more(3) show ?case by simp
qed

lemma windowLoop_chain:
  "successively (\<lambda>a b. start b \<le> endExclusive a)
     (windowLoop paragraphs maxTokens overlapTokens st [])"
proof (induction st rule: windowLoop_induct[where paragraphs = paragraphs
         and maxTokens = maxTokens and overlapTokens = overlapTokens])
  case (exit st)
  show ?case by simp
next
  case (last st w)
  show ?case by simp
next
  case (more st w st')
  from windowBody_next(2)[OF more(1,2) refl]
  have st': "st' \<le> endExclusive w" "st' < length paragraphs" by simp_all
  from windowLoop_first[OF st'(2)] st'(1) more(3) show ?case
    by (simp add: successively_Cons)
qed

lemma windowLoop_cover:
  "\<forall>i. st \<le> i \<and> i < length paragraphs \<longrightarrow>
       (\<exists>w \<in> set (windowLoop paragraphs maxTokens overlapTokens st []).
          start w \<le> i \<and> i < endExclusive w)"
proof (induction st rule: windowLoop_induct[where paragraphs = paragraphs
         and maxTokens = maxTokens and overlapTokens = overlapTokens])
  case (exit st)
  then show ?case by simp
next
  case (last st w)
  from windowBody_window(1)[OF last] windowBody_next(1)[OF last] show ?case by simp
next
  case (more st w st')
  show ?case
  proof (intro allI impI)
    fix i
    assume i: "st \<le> i \<and> i < length paragraphs"
    show "\<exists>w' \<in> set (w # windowLoop paragraphs maxTokens overlapTokens st' []).
            start w' \<le> i \<and> i < endExclusive w'"
    proof (cases "i < endExclusive w")
      case True
      with i windowBody_window(1)[OF more(1,2)] show ?thesis by simp
    next
      case False
      with windowBody_next(2)[OF more(1,2) refl] i have "st' \<le> i \<and> i < length paragraphs"
        by auto
      with more(3) show ?thesis by auto
    qed
  qed
qed

lemma windowLoop_tiling:
  "successively (\<lambda>a b. start b = endExclusive a) (windowLoop paragraphs maxTokens 0 st [])"
proof (induction st rule: windowLoop_induct[where paragraphs = paragraphs
         and maxTokens = maxTokens and overlapTokens = 0])
  case (exit st)
  show ?case by simp
next
  case (last st w)
  show ?case by simp
next
  case (more st w st')
  from windowBody_next(2,3)[OF more(1,2) refl]
  have st': "st' = endExclusive w" "st' < length paragraphs" by simp_all
  from windowLoop_first[OF st'(2)] st'(1) more(3) show ?case
    by (simp add: successively_Cons)
qed

lemma windowLoop_disjoint:
  "sorted_wrt (\<lambda>a b. endExclusive a \<le> start b) (windowLoop paragraphs maxTokens 0 st [])"
proof (induction st rule: windowLoop_induct[where paragraphs = paragraphs
         and maxTokens = maxTokens and overlapTokens = 0])
  case (exit st)
  show ?case by simp
next
  case (last st w)
  show ?case by simp
next
  case (more st w st')
  from windowBody_next(2,3)[OF more(1,2) refl] have "st' = endExclusive w" by simp
  with windowLoop_from_body[of paragraphs maxTokens 0 st'] more(3) show ?case by simp
qed

section \<open>What one window holds\<close>

lemma joinWith_snoc:
  "xs \<noteq> [] \<Longrightarrow> joinWith sep (xs @ [x]) = joinWith sep xs @ sep @ x"
  by (induction sep xs rule: joinWith.induct) simp_all

lemma joinWith_nonempty:
  "xs \<noteq> [] \<Longrightarrow> hd xs \<noteq> [] \<Longrightarrow> joinWith sep xs \<noteq> []"
  by (cases "(sep, xs)" rule: joinWith.cases) simp_all

lemma slice_empty: "slice xs i i = []"
  by (simp add: slice_def)

lemma slice_Suc:
  "i \<le> j \<Longrightarrow> j < length xs \<Longrightarrow> slice xs i (Suc j) = slice xs i j @ [xs ! j]"
proof -
  assume le: "i \<le> j" and lt: "j < length xs"
  then have "Suc j - i = Suc (j - i)" and "j - i < length (drop i xs)" by simp_all
  then show ?thesis
    using le by (simp add: slice_def take_Suc_conv_app_nth)
qed

lemma slice_hd:
  "i < j \<Longrightarrow> j \<le> length xs \<Longrightarrow> slice xs i j \<noteq> [] \<and> hd (slice xs i j) = xs ! i"
  by (auto simp: slice_def hd_drop_conv_nth)

lemma accumulate_budget:
  "accumulate paragraphs maxTokens st e combined = (e', c') \<Longrightarrow>
   (st + 2 \<le> e \<longrightarrow> int (approxTokenCount combined) \<le> maxTokens) \<Longrightarrow>
   st + 2 \<le> e' \<longrightarrow> int (approxTokenCount c') \<le> maxTokens"
proof (induction paragraphs maxTokens st e combined rule: accumulate.induct)
  case (1 paragraphs maxTokens st e combined)
  show ?case
  proof (cases "e < length paragraphs")
    case False
    with "1.prems" show ?thesis
      by (subst (asm) accumulate.simps) auto
  next
    case True
    define nxt where "nxt = (if combined \<noteq> [] then combined @ [LF, LF] @ paragraphs ! e
                             else paragraphs ! e)"
    define t where "t = approxTokenCount nxt"
    consider (stop) "int t > maxTokens \<and> e > st"
      | (full) "\<not> (int t > maxTokens \<and> e > st)" "int t \<ge> maxTokens"
      | (more) "\<not> (int t > maxTokens \<and> e > st)" "\<not> int t \<ge> maxTokens"
      by blast
    then show ?thesis
    proof cases
      case stop
      with True "1.prems" show ?thesis
        by (subst (asm) accumulate.simps) (auto simp: nxt_def t_def Let_def)
    next
      case full
      with True "1.prems"(1) have "e' = e + 1 \<and> c' = nxt"
        by (subst (asm) accumulate.simps) (auto simp: nxt_def t_def Let_def)
      with full show ?thesis by (auto simp: t_def)
    next
      case more
      have step: "accumulate paragraphs maxTokens st (e + 1) nxt = (e', c')"
        using "1.prems"(1) True more
        by (subst (asm) accumulate.simps) (simp add: nxt_def t_def Let_def)
      have inv: "st + 2 \<le> e + 1 \<longrightarrow> int (approxTokenCount nxt) \<le> maxTokens"
        using more by (auto simp: t_def)
      from "1.IH"[OF True nxt_def t_def more(1) more(2) step inv] show ?thesis .
    qed
  qed
qed

lemma accumulate_join:
  "accumulate paragraphs maxTokens st e combined = (e', c') \<Longrightarrow>
   st \<le> e \<Longrightarrow> e \<le> length paragraphs \<Longrightarrow> paragraphs ! st \<noteq> [] \<Longrightarrow>
   combined = joinWith [LF, LF] (slice paragraphs st e) \<Longrightarrow>
   c' = joinWith [LF, LF] (slice paragraphs st e')"
proof (induction paragraphs maxTokens st e combined rule: accumulate.induct)
  case (1 paragraphs maxTokens st e combined)
  show ?case
  proof (cases "e < length paragraphs")
    case False
    with "1.prems" show ?thesis
      by (subst (asm) accumulate.simps) auto
  next
    case True
    define nxt where "nxt = (if combined \<noteq> [] then combined @ [LF, LF] @ paragraphs ! e
                             else paragraphs ! e)"
    define t where "t = approxTokenCount nxt"
    have nxt_join: "nxt = joinWith [LF, LF] (slice paragraphs st (e + 1))"
    proof (cases "st = e")
      case True
      with \<open>e < length paragraphs\<close> "1.prems"(5) show ?thesis
        using slice_Suc[of e e paragraphs] by (simp add: nxt_def slice_empty)
    next
      case False
      with "1.prems"(2) have lt: "st < e" by simp
      from slice_hd[OF lt "1.prems"(3)] "1.prems"(4)
      have ne: "slice paragraphs st e \<noteq> []" "hd (slice paragraphs st e) \<noteq> []" by simp_all
      from joinWith_nonempty[OF ne] "1.prems"(5) have "combined \<noteq> []" by simp
      then show ?thesis
        using slice_Suc[OF "1.prems"(2) True] joinWith_snoc[OF ne(1)] "1.prems"(5)
        by (simp add: nxt_def)
    qed
    consider (stop) "int t > maxTokens \<and> e > st"
      | (full) "\<not> (int t > maxTokens \<and> e > st)" "int t \<ge> maxTokens"
      | (more) "\<not> (int t > maxTokens \<and> e > st)" "\<not> int t \<ge> maxTokens"
      by blast
    then show ?thesis
    proof cases
      case stop
      with True "1.prems" show ?thesis
        by (subst (asm) accumulate.simps) (auto simp: nxt_def t_def Let_def)
    next
      case full
      with True "1.prems"(1) have "e' = e + 1 \<and> c' = nxt"
        by (subst (asm) accumulate.simps) (auto simp: nxt_def t_def Let_def)
      with nxt_join show ?thesis by simp
    next
      case more
      have step: "accumulate paragraphs maxTokens st (e + 1) nxt = (e', c')"
        using "1.prems"(1) True more
        by (subst (asm) accumulate.simps) (simp add: nxt_def t_def Let_def)
      from "1.IH"[OF True nxt_def t_def more(1) more(2) step _ _ "1.prems"(4) nxt_join]
        "1.prems"(2) True
      show ?thesis by simp
    qed
  qed
qed

lemma accumulate_oversized:
  assumes "st < length paragraphs"
    and "int (approxTokenCount (paragraphs ! st)) \<ge> maxTokens"
  shows "accumulate paragraphs maxTokens st st [] = (st + 1, paragraphs ! st)"
  using assms by (subst accumulate.simps) (simp add: Let_def)

text \<open>The facts about the window pushed by one pass through the loop body.\<close>

lemma windowBody_budget:
  assumes "st < length paragraphs"
    and "windowBody paragraphs maxTokens overlapTokens st = (w, nxt)"
  shows "start w + 2 \<le> endExclusive w \<longrightarrow> int (approxTokens w) \<le> maxTokens"
proof -
  from windowBody_window[OF assms]
  have w: "start w = st" "approxTokens w = approxTokenCount (wtext w)"
    "accumulate paragraphs maxTokens st st [] = (endExclusive w, wtext w)"
    by simp_all
  from accumulate_budget[OF w(3)] w(1,2) show ?thesis by simp
qed

lemma windowBody_join:
  assumes "st < length paragraphs"
    and "windowBody paragraphs maxTokens overlapTokens st = (w, nxt)"
    and "paragraphs ! st \<noteq> []"
  shows "wtext w = joinWith [LF, LF] (slice paragraphs (start w) (endExclusive w))"
proof -
  from windowBody_window[OF assms(1,2)]
  have w: "start w = st"
    "accumulate paragraphs maxTokens st st [] = (endExclusive w, wtext w)"
    by simp_all
  from accumulate_join[OF w(2) _ _ assms(3)] assms(1) w(1) show ?thesis
    by (simp add: slice_empty)
qed

lemma windowBody_oversized:
  assumes "st < length paragraphs"
    and "windowBody paragraphs maxTokens overlapTokens st = (w, nxt)"
    and "int (approxTokenCount (paragraphs ! st)) \<ge> maxTokens"
  shows "endExclusive w = st + 1 \<and> wtext w = paragraphs ! st"
proof -
  from windowBody_window(4)[OF assms(1,2)] accumulate_oversized[OF assms(1,3)]
  show ?thesis by simp
qed

section \<open>Paragraphs and records\<close>

lemma buildOverlappedWindows_valid:
  "0 < maxTokens \<Longrightarrow> 0 \<le> overlapTokens \<Longrightarrow> overlapTokens < maxTokens \<Longrightarrow>
   buildOverlappedWindows paragraphs maxTokens overlapTokens
   = Inr (windowLoop paragraphs maxTokens overlapTokens 0 [])"
  by (simp add: buildOverlappedWindows_def)

lemma splitIntoParagraphs_nonempty: "\<forall>p \<in> set (splitIntoParagraphs md). p \<noteq> []"
  by (simp add: splitIntoParagraphs_def Let_def)

lemma chapterHeader_nonempty: "chapterHeader title \<noteq> []"
  by (simp add: chapterHeader_def u16_def)

text \<open>In \<^verbatim>\<open>main\<close> the window builder is never given the empty string as a paragraph.\<close>

lemma parasWithHeader_nonempty:
  "\<forall>p \<in> set (parasWithHeader includeChapterHeader title (splitIntoParagraphs md)). p \<noteq> []"
  using splitIntoParagraphs_nonempty[of md]
  by (auto simp: parasWithHeader_def chapterHeader_nonempty)

lemma indexedRecords_append:
  "indexedRecords sha256Hex metadata bookSlug opts i (xs @ ys) =
   indexedRecords sha256Hex metadata bookSlug opts i xs @
   indexedRecords sha256Hex metadata bookSlug opts (i + length xs) ys"
  by (induction xs arbitrary: i) auto

lemma indexedRecords_length:
  "length (indexedRecords sha256Hex metadata bookSlug opts i xs) = length xs"
  by (induction xs arbitrary: i) auto

lemma indexedRecords_nth:
  "k < length xs \<Longrightarrow>
   indexedRecords sha256Hex metadata bookSlug opts i xs ! k =
   mkRecord sha256Hex metadata bookSlug opts (fst (xs ! k)) (snd (xs ! k)) (i + k)
     (trim (wtext (snd (xs ! k))))"
proof (induction xs arbitrary: i k)
  case Nil
  then show ?case by simp
next
  case (Cons x xs)
  obtain ch w where x: "x = (ch, w)" by (cases x)
  show ?case
  proof (cases k)
    case 0
    then show ?thesis by (simp add: x)
  next
    case (Suc k')
    with Cons.prems have "k' < length xs" by simp
    from Cons.IH[OF this, of "Suc i"] Suc show ?thesis by (simp add: x)
  qed
qed

lemma assembleWindows_eq:
  "assembleWindows sha256Hex metadata bookSlug opts ch windows (lines, chunkIndex) =
   (lines @ indexedRecords sha256Hex metadata bookSlug opts chunkIndex
              (filter (\<lambda>(ch, w). trim (wtext w) \<noteq> []) (map (Pair ch) windows)),
    chunkIndex + length (filter (\<lambda>(ch, w). trim (wtext w) \<noteq> []) (map (Pair ch) windows)))"
  by (induction windows arbitrary: lines chunkIndex) (simp_all add: Let_def)

lemma assembleChapters_eq:
  assumes "0 < opt_maxTokens opts" and "0 \<le> opt_overlapTokens opts"
    and "opt_overlapTokens opts < opt_maxTokens opts"
  shows "assembleChapters sha256Hex readFile metadata bookSlug opts chs (lines, chunkIndex) =
   Inr (lines @ indexedRecords sha256Hex metadata bookSlug opts chunkIndex
                  (filter (\<lambda>(ch, w). trim (wtext w) \<noteq> [])
                     (concat (map (chapterWindows readFile opts) chs))),
        chunkIndex + length (filter (\<lambda>(ch, w). trim (wtext w) \<noteq> [])
                               (concat (map (chapterWindows readFile opts) chs))))"
proof (induction chs arbitrary: lines chunkIndex)
  case Nil
  show ?case by simp
next
  case (Cons ch chs)
  show ?case
  proof (cases "readFile (meta_file ch)")
    case None
    then show ?thesis using Cons.IH by (simp add: chapterWindows_def)
  next
    case (Some md)
    let ?ps = "parasWithHeader (opt_includeChapterHeader opts) (meta_chapter_title ch)
                 (splitIntoParagraphs md)"
    from buildOverlappedWindows_valid[of "opt_maxTokens opts" "opt_overlapTokens opts" ?ps]
      assms
    obtain windows where b: "buildOverlappedWindows ?ps (opt_maxTokens opts)
                               (opt_overlapTokens opts) = Inr windows"
      by auto
    have cw: "chapterWindows readFile opts ch = map (Pair ch) windows"
      using Some b by (simp add: chapterWindows_def)
    show ?thesis
      using Some b cw Cons.IH
      by (simp add: assembleWindows_eq indexedRecords_append)
  qed
qed


lemma main_eq:
  assumes "0 < opt_maxTokens opts" and "0 \<le> opt_overlapTokens opts"
    and "opt_overlapTokens opts < opt_maxTokens opts"
  shows "main sha256Hex readFile metadata bookSlug opts =
         Inr (indexedRecords sha256Hex metadata bookSlug opts 0
                (keptWindows readFile opts metadata))"
  by (simp add: main_def keptWindows_def assembleChapters_eq[OF assms])

lemma keptWindows_text:
  "k < length (keptWindows readFile opts metadata) \<Longrightarrow>
   trim (wtext (snd (keptWindows readFile opts metadata ! k))) \<noteq> []"
proof -
  assume "k < length (keptWindows readFile opts metadata)"
  then have "keptWindows readFile opts metadata ! k \<in> set (keptWindows readFile opts metadata)"
    by (rule nth_mem)
  then show ?thesis by (auto simp: keptWindows_def)
qed

section \<open>What stops the ingest run\<close>

lemma hasRequiredFields_error:
  "hasRequiredFields rec = Inl e \<Longrightarrow> rec = JNull"
  by (cases rec)
     (auto simp: hasRequiredFields_def split: sum.splits if_splits option.splits
           elim!: getPropOptional.elims)

lemma hasRequiredFields_null: "hasRequiredFields JNull = Inl TypeError"
  by (simp add: hasRequiredFields_def)

lemma upsertBookOnce_error:
  assumes "hasRequiredFields rec = Inr True"
    and "upsertBookOnce upsertBook rec s = Inl e"
  shows "\<exists>bk err. upsertBook (db s) bk = Inl err \<and> e = Thrown err"
proof -
  from assms(1) obtain members where rec: "rec = JObj members"
    by (cases rec) (auto simp: hasRequiredFields_def split: if_splits)
  from assms(1) rec obtain bkv where bk: "map_of members (u16 ''book'') = Some bkv"
    by (cases "map_of members (u16 ''book'')")
       (auto simp: hasRequiredFields_def split: if_splits sum.splits)
  from assms(1) rec bk have "\<exists>ms. bkv = JObj ms"
    by (cases bkv) (auto simp: hasRequiredFields_def split: if_splits sum.splits)
  then obtain ms where bkv: "bkv = JObj ms" ..
  from assms(2) show ?thesis
    by (auto simp: upsertBookOnce_def rec bk bkv split: if_splits sum.splits)
qed

text \<open>A line that does not parse, or lacks one of the three fields, is skipped.\<close>

lemma processLine_skip:
  "parse line = None \<or> (\<exists>rec. parse line = Some rec \<and> hasRequiredFields rec = Inr False) \<Longrightarrow>
   processLine parse upsertBook upsertChunkBatch batchSize filePath line s batch
   = Inr (s, batch)"
  by (auto simp: processLine_def)

text \<open>
  A failed batch: its size is added to \<open>chunksFailed\<close>, a note is recorded, the batch is
  emptied, and the loop goes on.
\<close>

lemma processLine_failed_batch:
  assumes "line \<noteq> []" and "parse line = Some rec" and "hasRequiredFields rec = Inr True"
    and "upsertBookOnce upsertBook rec s = Inr s1"
    and "batchSize \<le> int (length (batch @ [rec]))"
    and "upsertChunkBatch (db s1) (batch @ [rec]) = Inl err"
  shows "processLine parse upsertBook upsertChunkBatch batchSize filePath line s batch
   = Inr (s1\<lparr>chunksFailed := chunksFailed s1 + length (batch @ [rec]),
             notesList := notesList s1 @
               [u16 ''Failed batch insert for '' @ filePath @ u16 '': '' @ err]\<rparr>, [])"
  using assms by (simp add: processLine_def flush_def)

lemma processLine_no_abort:
  assumes "\<And>l. parse l \<noteq> Some JNull" and "\<And>d bk. \<exists>d'. upsertBook d bk = Inr d'"
  shows "\<exists>s' batch'. processLine parse upsertBook upsertChunkBatch batchSize filePath line s batch
           = Inr (s', batch')"
proof (cases "line = []")
  case True
  then show ?thesis by (simp add: processLine_def)
next
  case False
  show ?thesis
  proof (cases "parse line")
    case None
    with False show ?thesis by (simp add: processLine_def)
  next
    case (Some rec)
    with assms(1)[of line] have "rec \<noteq> JNull" by auto
    with hasRequiredFields_error[of rec] obtain b where b: "hasRequiredFields rec = Inr b"
      by (cases "hasRequiredFields rec") auto
    show ?thesis
    proof (cases b)
      case False
      with \<open>line \<noteq> []\<close> Some b show ?thesis by (simp add: processLine_def)
    next
      case True
      with b have ok: "hasRequiredFields rec = Inr True" by simp
      have "\<exists>s1. upsertBookOnce upsertBook rec s = Inr s1"
      proof (cases "upsertBookOnce upsertBook rec s")
        case (Inl e)
        from upsertBookOnce_error[OF ok Inl] assms(2) show ?thesis by (metis sum.distinct(1))
      next
        case (Inr s1)
        then show ?thesis by blast
      qed
      then obtain s1 where s1: "upsertBookOnce upsertBook rec s = Inr s1" ..
      show ?thesis
        using \<open>line \<noteq> []\<close> Some ok s1
        by (cases "flush upsertChunkBatch s1 (batch @ [rec])")
           (auto simp: processLine_def)
    qed
  qed
qed


lemma drainBuffer_no_abort:
  assumes "\<And>l. parse l \<noteq> Some JNull" and "\<And>d bk. \<exists>d'. upsertBook d bk = Inr d'"
  shows "\<exists>r. drainBuffer parse upsertBook upsertChunkBatch batchSize filePath buffer s batch
           = Inr r"
proof (induction "length buffer" arbitrary: buffer s batch rule: less_induct)
  case less
  show ?case
  proof (cases "LF \<in> set buffer")
    case False
    then show ?thesis by (subst drainBuffer.simps) simp
  next
    case True
    define idx where "idx = length (takeWhile (\<lambda>c. c \<noteq> LF) buffer)"
    have "\<exists>s' batch'. processLine parse upsertBook upsertChunkBatch batchSize filePath
             (trim (take idx buffer)) s batch = Inr (s', batch')"
      by (rule processLine_no_abort[OF assms])
    then obtain s' batch' where
      pl: "processLine parse upsertBook upsertChunkBatch batchSize filePath
             (trim (take idx buffer)) s batch = Inr (s', batch')"
      by blast
    from True have "buffer \<noteq> []" by auto
    then have "length (drop (idx + 1) buffer) < length buffer" by simp
    from less[OF this, of s' batch'] True pl show ?thesis
      by (subst drainBuffer.simps) (simp add: idx_def Let_def)
  qed
qed

lemma readStream_no_abort:
  assumes "\<And>l. parse l \<noteq> Some JNull" and "\<And>d bk. \<exists>d'. upsertBook d bk = Inr d'"
  shows "\<exists>r. readStream parse upsertBook upsertChunkBatch batchSize filePath chunks buffer s batch
           = Inr r"
proof (induction chunks arbitrary: buffer s batch)
  case Nil
  show ?case by simp
next
  case (Cons chunk chunks)
  have "\<exists>r. drainBuffer parse upsertBook upsertChunkBatch batchSize filePath
              (buffer @ chunk) s batch = Inr r"
    by (rule drainBuffer_no_abort[OF assms])
  then obtain buffer' s' batch' where
    "drainBuffer parse upsertBook upsertChunkBatch batchSize filePath (buffer @ chunk) s batch
     = Inr (buffer', s', batch')"
    by (metis prod_cases3)
  with Cons.IH[of buffer' s' batch'] show ?case by simp
qed

lemma ingestFile_no_abort:
  assumes "\<And>l. parse l \<noteq> Some JNull" and "\<And>d bk. \<exists>d'. upsertBook d bk = Inr d'"
  shows "\<exists>s'. ingestFile parse upsertBook upsertChunkBatch batchSize filePath chunks s = Inr s'"
proof -
  have "\<exists>r. readStream parse upsertBook upsertChunkBatch batchSize filePath chunks [] s []
             = Inr r"
    by (rule readStream_no_abort[OF assms])
  then obtain buffer s1 batch1 where
    rs: "readStream parse upsertBook upsertChunkBatch batchSize filePath chunks [] s []
         = Inr (buffer, s1, batch1)"
    by (metis prod_cases3)
  obtain s2 batch2 where ll: "lastLine parse upsertBook buffer s1 batch1 = (s2, batch2)"
    by (cases "lastLine parse upsertBook buffer s1 batch1")
  show ?thesis
    by (cases "flush upsertChunkBatch s2 batch2") (auto simp: ingestFile_def rs ll)
qed

text \<open>
  Apart from a line whose JSON value is \<^verbatim>\<open>null\<close> and from a failing \<^verbatim>\<open>upsertBook\<close>, no
  input and no failing batch stops the run.
\<close>

lemma ingestFiles_no_abort:
  assumes "\<And>l. parse l \<noteq> Some JNull" and "\<And>d bk. \<exists>d'. upsertBook d bk = Inr d'"
  shows "\<exists>s'. ingestFiles parse upsertBook upsertChunkBatch batchSize files s = Inr s'"
proof (induction files arbitrary: s)
  case Nil
  show ?case by simp
next
  case (Cons f files)
  obtain filePath chunks where f: "f = (filePath, chunks)" by (cases f)
  have "\<exists>s1. ingestFile parse upsertBook upsertChunkBatch batchSize filePath chunks s
              = Inr s1"
    by (rule ingestFile_no_abort[OF assms])
  then obtain s1 where "ingestFile parse upsertBook upsertChunkBatch batchSize filePath chunks s
                        = Inr s1" ..
  with Cons.IH[of s1] show ?case by (simp add: f)
qed

section \<open>Forward progress\<close>

text \<open>
  C1. For every paragraph sequence and every \<open>maxTokens > 0\<close>, \<open>0 \<le> overlapTokens < maxTokens\<close>,
  \<^verbatim>\<open>buildOverlappedWindows\<close> returns: the outer loop is left after at most
  \<open>paragraphs.length\<close> passes through its body (that much fuel is enough), one window is
  pushed per pass, so at most \<open>paragraphs.length\<close> windows come out, and the \<open>start\<close>
  values of the windows are strictly increasing.
\<close>

theorem buildOverlappedWindows_forward_progress:
  assumes "0 < maxTokens" and "0 \<le> overlapTokens" and "overlapTokens < maxTokens"
  shows "\<exists>ws. buildOverlappedWindows paragraphs maxTokens overlapTokens = Inr ws \<and>
              windowLoopFuel (length paragraphs) paragraphs maxTokens overlapTokens 0 []
                = Some ws \<and>
              length ws \<le> length paragraphs \<and>
              sorted_wrt (\<lambda>a b. start a < start b) ws"
proof -
  let ?ws = "windowLoop paragraphs maxTokens overlapTokens 0 []"
  have "buildOverlappedWindows paragraphs maxTokens overlapTokens = Inr ?ws"
    using assms by (simp add: buildOverlappedWindows_def)
  moreover have "windowLoopFuel (length paragraphs) paragraphs maxTokens overlapTokens 0 []
                 = Some ?ws"
    by (rule windowLoopFuel_enough) simp
  moreover have "length ?ws \<le> length paragraphs"
    using windowLoop_length[of paragraphs maxTokens overlapTokens 0] by simp
  moreover have "sorted_wrt (\<lambda>a b. start a < start b) ?ws"
    by (rule windowLoop_starts_increase)
  ultimately show ?thesis by blast
qed

theorem buildOverlappedWindows_forward_progress_witness:
  "(0::int) < 5 \<and> (0::int) \<le> 2 \<and> (2::int) < 5 \<and>
   (\<exists>ws. buildOverlappedWindows [u16 ''one two'', u16 ''three'', u16 ''four five six''] 5 2
            = Inr ws \<and>
         windowLoopFuel (length [u16 ''one two'', u16 ''three'', u16 ''four five six''])
           [u16 ''one two'', u16 ''three'', u16 ''four five six''] 5 2 0 [] = Some ws \<and>
         length ws \<le> length [u16 ''one two'', u16 ''three'', u16 ''four five six''] \<and>
         sorted_wrt (\<lambda>a b. start a < start b) ws)"
  using buildOverlappedWindows_forward_progress
          [of 5 2 "[u16 ''one two'', u16 ''three'', u16 ''four five six'']"]
  by simp

section \<open>Coverage\<close>

text \<open>
  C2. For every paragraph sequence and valid \<open>(maxTokens, overlapTokens)\<close>, the ranges
  \<open>[start, endExclusive)\<close> of the windows returned by \<^verbatim>\<open>buildOverlappedWindows\<close> cover
  every paragraph index from \<open>0\<close> to \<open>paragraphs.length - 1\<close>: the first window starts at
  \<open>0\<close>, each later window starts no later than the \<open>endExclusive\<close> of the window before
  it, and the last window has \<open>endExclusive = paragraphs.length\<close>.
\<close>

theorem buildOverlappedWindows_coverage:
  assumes "0 < maxTokens" and "0 \<le> overlapTokens" and "overlapTokens < maxTokens"
  shows "\<exists>ws. buildOverlappedWindows paragraphs maxTokens overlapTokens = Inr ws \<and>
              (\<forall>i < length paragraphs. \<exists>w \<in> set ws. start w \<le> i \<and> i < endExclusive w) \<and>
              (paragraphs \<noteq> [] \<longrightarrow>
                 ws \<noteq> [] \<and> start (hd ws) = 0 \<and> endExclusive (last ws) = length paragraphs) \<and>
              (\<forall>k. Suc k < length ws \<longrightarrow> start (ws ! Suc k) \<le> endExclusive (ws ! k))"
proof -
  let ?ws = "windowLoop paragraphs maxTokens overlapTokens 0 []"
  have "buildOverlappedWindows paragraphs maxTokens overlapTokens = Inr ?ws"
    using assms by (simp add: buildOverlappedWindows_def)
  moreover have "\<forall>i < length paragraphs. \<exists>w \<in> set ?ws. start w \<le> i \<and> i < endExclusive w"
    using windowLoop_cover[of 0 paragraphs maxTokens overlapTokens] by simp
  moreover have "paragraphs \<noteq> [] \<longrightarrow>
      ?ws \<noteq> [] \<and> start (hd ?ws) = 0 \<and> endExclusive (last ?ws) = length paragraphs"
    using windowLoop_first[of 0 paragraphs maxTokens overlapTokens]
      windowLoop_final_end[of paragraphs maxTokens overlapTokens 0]
    by simp
  moreover have "\<forall>k. Suc k < length ?ws \<longrightarrow> start (?ws ! Suc k) \<le> endExclusive (?ws ! k)"
    using successively_nth[OF windowLoop_chain[of paragraphs maxTokens overlapTokens 0]]
    by blast
  ultimately show ?thesis by blast
qed

theorem buildOverlappedWindows_coverage_witness:
  "(0::int) < 3 \<and> (0::int) \<le> 1 \<and> (1::int) < 3 \<and>
   (\<exists>ws. buildOverlappedWindows [u16 ''a b'', u16 ''c'', u16 ''d e f'', u16 ''g''] 3 1 = Inr ws \<and>
      (\<forall>i < length [u16 ''a b'', u16 ''c'', u16 ''d e f'', u16 ''g''].
          \<exists>w \<in> set ws. start w \<le> i \<and> i < endExclusive w) \<and>
      ([u16 ''a b'', u16 ''c'', u16 ''d e f'', u16 ''g''] \<noteq> [] \<longrightarrow>
         ws \<noteq> [] \<and> start (hd ws) = 0 \<and>
         endExclusive (last ws) = length [u16 ''a b'', u16 ''c'', u16 ''d e f'', u16 ''g'']) \<and>
      (\<forall>k. Suc k < length ws \<longrightarrow> start (ws ! Suc k) \<le> endExclusive (ws ! k)))"
  using buildOverlappedWindows_coverage
          [of 3 1 "[u16 ''a b'', u16 ''c'', u16 ''d e f'', u16 ''g'']"]
  by simp

section \<open>Window size\<close>

text \<open>
  C3. Every window returned by \<^verbatim>\<open>buildOverlappedWindows\<close> holds at least one paragraph
  (\<open>endExclusive > start\<close>); a paragraph whose own token estimate reaches or exceeds
  \<open>maxTokens\<close> is a window of its own; and every window of two or more paragraphs has
  \<open>approxTokens \<le> maxTokens\<close>, so that only a one-paragraph window can exceed the budget.
\<close>

theorem buildOverlappedWindows_window_size:
  assumes "0 < maxTokens" and "0 \<le> overlapTokens" and "overlapTokens < maxTokens"
  shows "\<exists>ws. buildOverlappedWindows paragraphs maxTokens overlapTokens = Inr ws \<and>
              (\<forall>w \<in> set ws.
                 start w < endExclusive w \<and>
                 (maxTokens \<le> int (approxTokenCount (paragraphs ! start w)) \<longrightarrow>
                    endExclusive w = start w + 1 \<and> wtext w = paragraphs ! start w) \<and>
                 (start w + 2 \<le> endExclusive w \<longrightarrow> int (approxTokens w) \<le> maxTokens))"
proof -
  let ?ws = "windowLoop paragraphs maxTokens overlapTokens 0 []"
  have "buildOverlappedWindows paragraphs maxTokens overlapTokens = Inr ?ws"
    using assms by (simp add: buildOverlappedWindows_def)
  moreover have "\<forall>w \<in> set ?ws.
      start w < endExclusive w \<and>
      (maxTokens \<le> int (approxTokenCount (paragraphs ! start w)) \<longrightarrow>
         endExclusive w = start w + 1 \<and> wtext w = paragraphs ! start w) \<and>
      (start w + 2 \<le> endExclusive w \<longrightarrow> int (approxTokens w) \<le> maxTokens)"
  proof
    fix w
    assume "w \<in> set ?ws"
    with windowLoop_from_body[of paragraphs maxTokens overlapTokens 0]
    have lt: "start w < length paragraphs"
      and w: "w = fst (windowBody paragraphs maxTokens overlapTokens (start w))"
      by simp_all
    obtain nxt where body:
      "windowBody paragraphs maxTokens overlapTokens (start w) = (w, nxt)"
      using w by (cases "windowBody paragraphs maxTokens overlapTokens (start w)") simp
    from windowBody_window(2)[OF lt body] windowBody_oversized[OF lt body]
      windowBody_budget[OF lt body]
    show "start w < endExclusive w \<and>
      (maxTokens \<le> int (approxTokenCount (paragraphs ! start w)) \<longrightarrow>
         endExclusive w = start w + 1 \<and> wtext w = paragraphs ! start w) \<and>
      (start w + 2 \<le> endExclusive w \<longrightarrow> int (approxTokens w) \<le> maxTokens)"
      by blast
  qed
  ultimately show ?thesis by blast
qed

theorem buildOverlappedWindows_window_size_witness:
  "(0::int) < 3 \<and> (0::int) \<le> 1 \<and> (1::int) < 3 \<and>
   (\<exists>ws. buildOverlappedWindows [u16 ''a b c d e'', u16 ''f'', u16 ''g h''] 3 1 = Inr ws \<and>
      (\<forall>w \<in> set ws.
         start w < endExclusive w \<and>
         (3 \<le> int (approxTokenCount ([u16 ''a b c d e'', u16 ''f'', u16 ''g h''] ! start w)) \<longrightarrow>
            endExclusive w = start w + 1 \<and>
            wtext w = [u16 ''a b c d e'', u16 ''f'', u16 ''g h''] ! start w) \<and>
         (start w + 2 \<le> endExclusive w \<longrightarrow> int (approxTokens w) \<le> 3)))"
  using buildOverlappedWindows_window_size
          [of 3 1 "[u16 ''a b c d e'', u16 ''f'', u16 ''g h'']"]
  by simp

section \<open>Window invariants\<close>

text \<open>
  C4. Every window returned by \<^verbatim>\<open>buildOverlappedWindows\<close> satisfies
  \<open>0 \<le> start < endExclusive \<le> paragraphs.length\<close>, its text is the paragraphs of
  \<open>[start, endExclusive)\<close> joined with a blank line, and its \<open>approxTokens\<close> is the token
  estimate of that text. The paragraphs are those of the data model: no paragraph is
  the empty string (the splitter drops empty pieces and the chapter heading is never
  empty, so \<^verbatim>\<open>main\<close> passes no other sequence). A sequence that is not empty gives at
  least one window.
\<close>

theorem buildOverlappedWindows_window_invariants:
  assumes "0 < maxTokens" and "0 \<le> overlapTokens" and "overlapTokens < maxTokens"
    and "\<forall>p \<in> set paragraphs. p \<noteq> []"
  shows "\<exists>ws. buildOverlappedWindows paragraphs maxTokens overlapTokens = Inr ws \<and>
              (paragraphs \<noteq> [] \<longrightarrow> ws \<noteq> []) \<and>
              (\<forall>w \<in> set ws.
                 0 \<le> start w \<and> start w < endExclusive w \<and>
                 endExclusive w \<le> length paragraphs \<and>
                 wtext w = joinWith [LF, LF] (slice paragraphs (start w) (endExclusive w)) \<and>
                 approxTokens w = approxTokenCount (wtext w))"
proof -
  let ?ws = "windowLoop paragraphs maxTokens overlapTokens 0 []"
  have "buildOverlappedWindows paragraphs maxTokens overlapTokens = Inr ?ws"
    using assms(1-3) by (simp add: buildOverlappedWindows_def)
  moreover have "paragraphs \<noteq> [] \<longrightarrow> ?ws \<noteq> []"
    using windowLoop_first[of 0 paragraphs maxTokens overlapTokens] by simp
  moreover have "\<forall>w \<in> set ?ws.
      0 \<le> start w \<and> start w < endExclusive w \<and> endExclusive w \<le> length paragraphs \<and>
      wtext w = joinWith [LF, LF] (slice paragraphs (start w) (endExclusive w)) \<and>
      approxTokens w = approxTokenCount (wtext w)"
  proof
    fix w
    assume "w \<in> set ?ws"
    with windowLoop_from_body[of paragraphs maxTokens overlapTokens 0]
    have lt: "start w < length paragraphs"
      and w: "w = fst (windowBody paragraphs maxTokens overlapTokens (start w))"
      by simp_all
    obtain nxt where body:
      "windowBody paragraphs maxTokens overlapTokens (start w) = (w, nxt)"
      using w by (cases "windowBody paragraphs maxTokens overlapTokens (start w)") simp
    from lt assms(4) have ne: "paragraphs ! start w \<noteq> []" by simp
    from windowBody_window(2,3,5)[OF lt body] windowBody_join[OF lt body ne]
    show "0 \<le> start w \<and> start w < endExclusive w \<and> endExclusive w \<le> length paragraphs \<and>
      wtext w = joinWith [LF, LF] (slice paragraphs (start w) (endExclusive w)) \<and>
      approxTokens w = approxTokenCount (wtext w)"
      by blast
  qed
  ultimately show ?thesis by blast
qed

theorem buildOverlappedWindows_window_invariants_witness:
  "(0::int) < 4 \<and> (0::int) \<le> 1 \<and> (1::int) < 4 \<and>
   u16 ''a b'' \<noteq> [] \<and> u16 ''c'' \<noteq> [] \<and> u16 ''d e f'' \<noteq> [] \<and>
   (\<exists>ws. buildOverlappedWindows [u16 ''a b'', u16 ''c'', u16 ''d e f''] 4 1 = Inr ws \<and>
      ([u16 ''a b'', u16 ''c'', u16 ''d e f''] \<noteq> [] \<longrightarrow> ws \<noteq> []) \<and>
      (\<forall>w \<in> set ws.
         0 \<le> start w \<and> start w < endExclusive w \<and>
         endExclusive w \<le> length [u16 ''a b'', u16 ''c'', u16 ''d e f''] \<and>
         wtext w = joinWith [LF, LF]
                     (slice [u16 ''a b'', u16 ''c'', u16 ''d e f'']
                        (start w) (endExclusive w)) \<and>
         approxTokens w = approxTokenCount (wtext w)))"
proof -
  have ne: "\<forall>p \<in> set [u16 ''a b'', u16 ''c'', u16 ''d e f'']. p \<noteq> []"
    by (simp add: u16_def)
  have v: "(0::int) < 4" "(0::int) \<le> 1" "(1::int) < 4" by simp_all
  from ne buildOverlappedWindows_window_invariants[OF v ne] show ?thesis by simp
qed

section \<open>Configuration errors\<close>

text \<open>
  C5. For every paragraph sequence, \<^verbatim>\<open>buildOverlappedWindows\<close> with \<open>maxTokens \<le> 0\<close>, or
  \<open>overlapTokens < 0\<close>, or \<open>overlapTokens \<ge> maxTokens\<close> throws, and the thrown error comes
  without any window; with valid bounds it throws nothing and returns a window list.
\<close>

theorem buildOverlappedWindows_validation:
  "(maxTokens \<le> 0 \<or> overlapTokens < 0 \<or> maxTokens \<le> overlapTokens \<longrightarrow>
      (\<exists>err. buildOverlappedWindows paragraphs maxTokens overlapTokens = Inl err)) \<and>
   (0 < maxTokens \<and> 0 \<le> overlapTokens \<and> overlapTokens < maxTokens \<longrightarrow>
      (\<exists>ws. buildOverlappedWindows paragraphs maxTokens overlapTokens = Inr ws))"
  by (simp add: buildOverlappedWindows_def)

theorem buildOverlappedWindows_validation_witness:
  "(\<exists>err. buildOverlappedWindows [u16 ''one two'', u16 ''three''] 0 0 = Inl err) \<and>
   (\<exists>err. buildOverlappedWindows [u16 ''one two'', u16 ''three''] 5 (- 1) = Inl err) \<and>
   (\<exists>err. buildOverlappedWindows [u16 ''one two'', u16 ''three''] 5 5 = Inl err) \<and>
   (\<exists>ws. buildOverlappedWindows [u16 ''one two'', u16 ''three''] 5 2 = Inr ws)"
  using buildOverlappedWindows_validation[of 0 0 "[u16 ''one two'', u16 ''three'']"]
    buildOverlappedWindows_validation[of 5 "- 1" "[u16 ''one two'', u16 ''three'']"]
    buildOverlappedWindows_validation[of 5 5 "[u16 ''one two'', u16 ''three'']"]
    buildOverlappedWindows_validation[of 5 2 "[u16 ''one two'', u16 ''three'']"]
  by simp

section \<open>The scenario of the specification\<close>

text \<open>
  C6. On the paragraphs \<^verbatim>\<open>["A B C", "D E F G", "H I"]\<close> with \<open>maxTokens = 5\<close> and
  \<open>overlapTokens = 2\<close>, \<^verbatim>\<open>buildOverlappedWindows\<close> returns exactly three windows, each of
  one paragraph: \<open>(0, 1)\<close> with 3 tokens, \<open>(1, 2)\<close> with 4 tokens and \<open>(2, 3)\<close> with 2 tokens.
\<close>

theorem buildOverlappedWindows_scenario:
  "buildOverlappedWindows [u16 ''A B C'', u16 ''D E F G'', u16 ''H I''] 5 2 =
     Inr [\<lparr>start = 0, endExclusive = 1, wtext = u16 ''A B C'', approxTokens = 3\<rparr>,
          \<lparr>start = 1, endExclusive = 2, wtext = u16 ''D E F G'', approxTokens = 4\<rparr>,
          \<lparr>start = 2, endExclusive = 3, wtext = u16 ''H I'', approxTokens = 2\<rparr>]"
  by code_simp

section \<open>No overlap\<close>

text \<open>
  C7. For every paragraph sequence and \<open>maxTokens > 0\<close>, with \<open>overlapTokens = 0\<close> each
  window after the first starts exactly at the \<open>endExclusive\<close> of the window before it
  (there is no backward walk), and the windows tile the paragraph sequence: the first
  starts at \<open>0\<close>, the last ends at \<open>paragraphs.length\<close>, the ranges are pairwise disjoint,
  and every paragraph index lies in exactly one window. The empty paragraph sequence
  gives no window and no error, under every valid configuration.
\<close>

theorem buildOverlappedWindows_no_overlap:
  assumes "0 < maxTokens"
  shows "\<exists>ws. buildOverlappedWindows paragraphs maxTokens 0 = Inr ws \<and>
              (paragraphs \<noteq> [] \<longrightarrow>
                 ws \<noteq> [] \<and> start (hd ws) = 0 \<and> endExclusive (last ws) = length paragraphs) \<and>
              (\<forall>k. Suc k < length ws \<longrightarrow> start (ws ! Suc k) = endExclusive (ws ! k)) \<and>
              (\<forall>i j. i < j \<and> j < length ws \<longrightarrow>
                 {start (ws ! i) ..< endExclusive (ws ! i)} \<inter>
                 {start (ws ! j) ..< endExclusive (ws ! j)} = {}) \<and>
              (\<forall>i < length paragraphs.
                 \<exists>!k. k < length ws \<and> start (ws ! k) \<le> i \<and> i < endExclusive (ws ! k)) \<and>
              (\<forall>overlapTokens. 0 \<le> overlapTokens \<and> overlapTokens < maxTokens \<longrightarrow>
                 buildOverlappedWindows [] maxTokens overlapTokens = Inr [])"
proof -
  let ?ws = "windowLoop paragraphs maxTokens 0 0 []"
  have build: "buildOverlappedWindows paragraphs maxTokens 0 = Inr ?ws"
    using assms by (simp add: buildOverlappedWindows_def)
  have ends: "paragraphs \<noteq> [] \<longrightarrow>
      ?ws \<noteq> [] \<and> start (hd ?ws) = 0 \<and> endExclusive (last ?ws) = length paragraphs"
    using windowLoop_first[of 0 paragraphs maxTokens 0]
      windowLoop_final_end[of paragraphs maxTokens 0 0]
    by simp
  have abut: "\<forall>k. Suc k < length ?ws \<longrightarrow> start (?ws ! Suc k) = endExclusive (?ws ! k)"
    using successively_nth[OF windowLoop_tiling[of paragraphs maxTokens 0]] by blast
  have apart: "endExclusive (?ws ! i) \<le> start (?ws ! j)" if "i < j" and "j < length ?ws"
    for i j
    using sorted_wrt_nth_less[OF windowLoop_disjoint[of paragraphs maxTokens 0] that] .
  have disj: "\<forall>i j. i < j \<and> j < length ?ws \<longrightarrow>
      {start (?ws ! i) ..< endExclusive (?ws ! i)} \<inter>
      {start (?ws ! j) ..< endExclusive (?ws ! j)} = {}"
  proof (intro allI impI)
    fix i j
    assume "i < j \<and> j < length ?ws"
    then have "endExclusive (?ws ! i) \<le> start (?ws ! j)" using apart by blast
    then show "{start (?ws ! i) ..< endExclusive (?ws ! i)} \<inter>
               {start (?ws ! j) ..< endExclusive (?ws ! j)} = {}"
      by auto
  qed
  have once: "\<forall>i < length paragraphs.
      \<exists>!k. k < length ?ws \<and> start (?ws ! k) \<le> i \<and> i < endExclusive (?ws ! k)"
  proof (intro allI impI)
    fix i
    assume i: "i < length paragraphs"
    with windowLoop_cover[of 0 paragraphs maxTokens 0]
    obtain w where w: "w \<in> set ?ws" "start w \<le> i" "i < endExclusive w" by auto
    from w(1) obtain k where k: "k < length ?ws" "?ws ! k = w"
      by (auto simp: in_set_conv_nth)
    show "\<exists>!k. k < length ?ws \<and> start (?ws ! k) \<le> i \<and> i < endExclusive (?ws ! k)"
    proof (rule ex1I[of _ k])
      show "k < length ?ws \<and> start (?ws ! k) \<le> i \<and> i < endExclusive (?ws ! k)"
        using k w by simp
    next
      fix k'
      assume k': "k' < length ?ws \<and> start (?ws ! k') \<le> i \<and> i < endExclusive (?ws ! k')"
      show "k' = k"
      proof (rule ccontr)
        assume "k' \<noteq> k"
        then consider "k' < k" | "k < k'" by linarith
        then show False
        proof cases
          case 1
          from apart[OF 1 k(1)] k' k(2) w show False by simp
        next
          case 2
          from k' have "k' < length ?ws" by simp
          from apart[OF 2 this] k' k(2) w show False by simp
        qed
      qed
    qed
  qed
  have empty: "\<forall>overlapTokens. 0 \<le> overlapTokens \<and> overlapTokens < maxTokens \<longrightarrow>
      buildOverlappedWindows [] maxTokens overlapTokens = Inr []"
    using assms by (simp add: buildOverlappedWindows_def windowLoop_exit)
  from build ends abut disj once empty show ?thesis by blast
qed

theorem buildOverlappedWindows_no_overlap_witness:
  "(0::int) < 3 \<and>
   (\<exists>ws. buildOverlappedWindows [u16 ''a b'', u16 ''c'', u16 ''d e f'', u16 ''g''] 3 0 = Inr ws \<and>
      ([u16 ''a b'', u16 ''c'', u16 ''d e f'', u16 ''g''] \<noteq> [] \<longrightarrow>
         ws \<noteq> [] \<and> start (hd ws) = 0 \<and>
         endExclusive (last ws) = length [u16 ''a b'', u16 ''c'', u16 ''d e f'', u16 ''g'']) \<and>
      (\<forall>k. Suc k < length ws \<longrightarrow> start (ws ! Suc k) = endExclusive (ws ! k)) \<and>
      (\<forall>i j. i < j \<and> j < length ws \<longrightarrow>
         {start (ws ! i) ..< endExclusive (ws ! i)} \<inter>
         {start (ws ! j) ..< endExclusive (ws ! j)} = {}) \<and>
      (\<forall>i < length [u16 ''a b'', u16 ''c'', u16 ''d e f'', u16 ''g''].
         \<exists>!k. k < length ws \<and> start (ws ! k) \<le> i \<and> i < endExclusive (ws ! k)) \<and>
      (\<forall>overlapTokens. 0 \<le> overlapTokens \<and> overlapTokens < 3 \<longrightarrow>
         buildOverlappedWindows [] 3 overlapTokens = Inr []))"
  using buildOverlappedWindows_no_overlap
          [of 3 "[u16 ''a b'', u16 ''c'', u16 ''d e f'', u16 ''g'']"]
  by simp

section \<open>Chunk indices\<close>

text \<open>
  C8. The assembler numbers the chunks with one counter over the whole book: going
  through the chapters sorted by \<open>order\<close> and through the windows of each chapter in
  the order they were emitted, the \<open>k\<close>-th window whose trimmed text is not empty gives the
  \<open>k\<close>-th record, with index \<open>k\<close> (from \<open>0\<close>, never reset), the digest of the trimmed
  text, and the \<open>chunkId\<close> \<^verbatim>\<open>"chunk_" + slug + "_" +\<close> the index padded with zeros to 6
  digits; the windows with empty trimmed text give no record and take no index.
\<close>

theorem main_chunk_indices:
  assumes "0 < opt_maxTokens opts" and "0 \<le> opt_overlapTokens opts"
    and "opt_overlapTokens opts < opt_maxTokens opts"
  shows "\<exists>lines. main sha256Hex readFile metadata bookSlug opts = Inr lines \<and>
           length lines = length (keptWindows readFile opts metadata) \<and>
           (\<forall>k < length lines.
              chunk_index (rec_chunk (lines ! k)) = k \<and>
              chunkId (lines ! k)
                = u16 ''chunk_'' @ bookSlug @ u16 ''_'' @ padStart 6 (u16 ''0'') (decimal k) \<and>
              rec_text (lines ! k)
                = trim (wtext (snd (keptWindows readFile opts metadata ! k))) \<and>
              rec_text (lines ! k) \<noteq> [] \<and>
              chunk_sha256 (rec_chunk (lines ! k)) = sha256Hex (rec_text (lines ! k)) \<and>
              chapter_id (rec_chapter (lines ! k))
                = meta_id (fst (keptWindows readFile opts metadata ! k)) \<and>
              chunk_startParagraph (rec_chunk (lines ! k))
                = start (snd (keptWindows readFile opts metadata ! k)) \<and>
              chunk_endParagraphExclusive (rec_chunk (lines ! k))
                = endExclusive (snd (keptWindows readFile opts metadata ! k)))"
proof -
  let ?kept = "keptWindows readFile opts metadata"
  let ?lines = "indexedRecords sha256Hex metadata bookSlug opts 0 ?kept"
  have m: "main sha256Hex readFile metadata bookSlug opts = Inr ?lines"
    by (rule main_eq[OF assms])
  have len: "length ?lines = length ?kept"
    by (rule indexedRecords_length)
  have "\<forall>k < length ?lines.
      chunk_index (rec_chunk (?lines ! k)) = k \<and>
      chunkId (?lines ! k)
        = u16 ''chunk_'' @ bookSlug @ u16 ''_'' @ padStart 6 (u16 ''0'') (decimal k) \<and>
      rec_text (?lines ! k) = trim (wtext (snd (?kept ! k))) \<and>
      rec_text (?lines ! k) \<noteq> [] \<and>
      chunk_sha256 (rec_chunk (?lines ! k)) = sha256Hex (rec_text (?lines ! k)) \<and>
      chapter_id (rec_chapter (?lines ! k)) = meta_id (fst (?kept ! k)) \<and>
      chunk_startParagraph (rec_chunk (?lines ! k)) = start (snd (?kept ! k)) \<and>
      chunk_endParagraphExclusive (rec_chunk (?lines ! k)) = endExclusive (snd (?kept ! k))"
  proof (intro allI impI)
    fix k
    assume "k < length ?lines"
    with len have k: "k < length ?kept" by simp
    from indexedRecords_nth[OF k, of sha256Hex metadata bookSlug opts 0] keptWindows_text[OF k]
    show "chunk_index (rec_chunk (?lines ! k)) = k \<and>
      chunkId (?lines ! k)
        = u16 ''chunk_'' @ bookSlug @ u16 ''_'' @ padStart 6 (u16 ''0'') (decimal k) \<and>
      rec_text (?lines ! k) = trim (wtext (snd (?kept ! k))) \<and>
      rec_text (?lines ! k) \<noteq> [] \<and>
      chunk_sha256 (rec_chunk (?lines ! k)) = sha256Hex (rec_text (?lines ! k)) \<and>
      chapter_id (rec_chapter (?lines ! k)) = meta_id (fst (?kept ! k)) \<and>
      chunk_startParagraph (rec_chunk (?lines ! k)) = start (snd (?kept ! k)) \<and>
      chunk_endParagraphExclusive (rec_chunk (?lines ! k)) = endExclusive (snd (?kept ! k))"
      by (simp add: mkRecord_def mkChunkId_def)
  qed
  with m len show ?thesis by blast
qed

theorem main_chunk_indices_witness:
  "0 < opt_maxTokens sampleOpts \<and> 0 \<le> opt_overlapTokens sampleOpts \<and>
   opt_overlapTokens sampleOpts < opt_maxTokens sampleOpts \<and>
   (\<exists>lines. main (\<lambda>t. t) sampleFiles sampleMetadata (u16 ''bk'') sampleOpts = Inr lines \<and>
      length lines = length (keptWindows sampleFiles sampleOpts sampleMetadata) \<and>
      (\<forall>k < length lines.
         chunk_index (rec_chunk (lines ! k)) = k \<and>
         chunkId (lines ! k)
           = u16 ''chunk_'' @ u16 ''bk'' @ u16 ''_'' @ padStart 6 (u16 ''0'') (decimal k) \<and>
         rec_text (lines ! k)
           = trim (wtext (snd (keptWindows sampleFiles sampleOpts sampleMetadata ! k))) \<and>
         rec_text (lines ! k) \<noteq> [] \<and>
         chunk_sha256 (rec_chunk (lines ! k)) = (\<lambda>t. t) (rec_text (lines ! k)) \<and>
         chapter_id (rec_chapter (lines ! k))
           = meta_id (fst (keptWindows sampleFiles sampleOpts sampleMetadata ! k)) \<and>
         chunk_startParagraph (rec_chunk (lines ! k))
           = start (snd (keptWindows sampleFiles sampleOpts sampleMetadata ! k)) \<and>
         chunk_endParagraphExclusive (rec_chunk (lines ! k))
           = endExclusive (snd (keptWindows sampleFiles sampleOpts sampleMetadata ! k))))"
proof -
  have v: "0 < opt_maxTokens sampleOpts" "0 \<le> opt_overlapTokens sampleOpts"
    "opt_overlapTokens sampleOpts < opt_maxTokens sampleOpts"
    by (simp_all add: sampleOpts_def)
  from v main_chunk_indices[OF v, of "\<lambda>t. t" sampleFiles sampleMetadata "u16 ''bk''"]
  show ?thesis by simp
qed

lemma main_sample_run:
  "map (\<lambda>r. (chapter_id (rec_chapter r), chunk_index (rec_chunk r), chunkId r))
     (projr (main (\<lambda>t. t) sampleFiles sampleMetadata (u16 ''bk'') sampleOpts)) =
   [(u16 ''c1'', 0, u16 ''chunk_bk_000000''), (u16 ''c1'', 1, u16 ''chunk_bk_000001''),
    (u16 ''c2'', 2, u16 ''chunk_bk_000002''), (u16 ''c2'', 3, u16 ''chunk_bk_000003'')]"
  by code_simp

section \<open>A line that stops the ingest run\<close>

text \<open>
  C9 is what the writer is meant to do, and the code misses a case. In the streaming
  loop only \<^verbatim>\<open>JSON.parse\<close> stands inside the \<^verbatim>\<open>try\<close>: a line whose JSON value is
  \<^verbatim>\<open>null\<close> parses, the test \<^verbatim>\<open>!rec.chunkId\<close> then throws a TypeError that nothing
  catches, and the run stops there, with the rest of the file and the other files
  unread. The same line as the last, unterminated line of a file is ignored, since
  there the whole handling stands inside the \<^verbatim>\<open>try\<close>.
\<close>

theorem ingestFiles_null_line_aborts:
  assumes "LF \<notin> set line" and "trim line \<noteq> []" and "parse (trim line) = Some JNull"
  shows "ingestFiles parse upsertBook upsertChunkBatch batchSize
           ((filePath, (line @ LF # rest) # chunks) # files) s = Inl TypeError \<and>
         ingestFiles parse upsertBook upsertChunkBatch batchSize [(filePath, [line])] s = Inr s"
proof -
  from assms(1) have "\<forall>c \<in> set line. c \<noteq> LF" by auto
  then have tw: "takeWhile (\<lambda>c. c \<noteq> LF) (line @ LF # rest) = line"
    by simp
  have pl: "processLine parse upsertBook upsertChunkBatch batchSize filePath (trim line) s []
            = Inl TypeError"
    using assms(2,3) by (simp add: processLine_def hasRequiredFields_null)
  have "drainBuffer parse upsertBook upsertChunkBatch batchSize filePath (line @ LF # rest) s []
        = Inl TypeError"
    by (subst drainBuffer.simps) (simp add: tw pl Let_def)
  then have abort: "ingestFiles parse upsertBook upsertChunkBatch batchSize
           ((filePath, (line @ LF # rest) # chunks) # files) s = Inl TypeError"
    by (simp add: ingestFile_def)
  have "drainBuffer parse upsertBook upsertChunkBatch batchSize filePath line s []
        = Inr (line, s, [])"
    using assms(1) by (subst drainBuffer.simps) simp
  moreover have "lastLine parse upsertBook line s [] = (s, [])"
    using assms(2,3) by (simp add: lastLine_def hasRequiredFields_null)
  ultimately have "ingestFiles parse upsertBook upsertChunkBatch batchSize
                     [(filePath, [line])] s = Inr s"
    by (simp add: ingestFile_def flush_def)
  with abort show ?thesis by simp
qed

theorem ingestFiles_null_line_aborts_witness:
  "LF \<notin> set (u16 ''null'') \<and> trim (u16 ''null'') \<noteq> [] \<and>
   sampleParse (trim (u16 ''null'')) = Some JNull \<and>
   ingestFiles sampleParse (\<lambda>d bk. Inr d) (\<lambda>d rows. Inr d) 200
     [(u16 ''a.jsonl'', [u16 ''null'' @ LF # u16 ''{...}'' @ [LF]]), (u16 ''b.jsonl'', [])]
     sampleState = Inl TypeError \<and>
   ingestFiles sampleParse (\<lambda>d bk. Inr d) (\<lambda>d rows. Inr d) 200
     [(u16 ''a.jsonl'', [u16 ''null''])] sampleState = Inr sampleState"
proof -
  have h: "LF \<notin> set (u16 ''null'')" "trim (u16 ''null'') \<noteq> []"
    "sampleParse (trim (u16 ''null'')) = Some JNull"
    by (simp_all add: u16_def LF_def trim_def isSpace_def sampleParse_def)
  from h ingestFiles_null_line_aborts
         [where line = "u16 ''null''" and parse = sampleParse
            and upsertBook = "\<lambda>d bk. Inr d" and upsertChunkBatch = "\<lambda>d rows. Inr d"
            and batchSize = 200 and filePath = "u16 ''a.jsonl''"
            and rest = "u16 ''{...}'' @ [LF]" and chunks = "[]"
            and files = "[(u16 ''b.jsonl'', [])]" and s = sampleState]
  show ?thesis by simp
qed

section \<open>The chapter header\<close>



end
